theory Spec2Isabelle
  imports Main "HOL-Library.Sublist"
begin

section \<open>Text, word characters and the regular expressions of the rename rules\<close>

text \<open>
  The program is \<^verbatim>\<open>fix-field-names.py\<close>. It reads each file as a Python \<^verbatim>\<open>str\<close>, a sequence
  of Unicode code points, so a text is a list of code points here. The patterns are
  \<^verbatim>\<open>str\<close> patterns compiled without flags: \<^verbatim>\<open>\b\<close> is the boundary between a word
  character and a non-word character, where a word character is an alphanumeric
  character or the underscore. For ASCII that set is written out; for the code points
  from 128 on it is the alphanumeric predicate of Python's Unicode database, which is
  not part of the program and is the parameter \<open>U\<close> of every function below.
\<close>

type_synonym codepoint = nat
type_synonym pystr = "codepoint list"

definition cps :: "string \<Rightarrow> pystr" where
  "cps s = map of_char s"

definition ascii_word :: "codepoint \<Rightarrow> bool" where
  "ascii_word c =
     ((48 \<le> c \<and> c \<le> 57) \<or> (65 \<le> c \<and> c \<le> 90) \<or> c = 95 \<or> (97 \<le> c \<and> c \<le> 122))"

definition is_word :: "(codepoint \<Rightarrow> bool) \<Rightarrow> codepoint \<Rightarrow> bool" where
  "is_word U c = (if c < 128 then ascii_word c else U c)"

text \<open>
  The patterns of the program use two constructs only: a literal character (\<^verbatim>\<open>\.\<close> is
  the literal dot) and \<^verbatim>\<open>\b\<close>. A pattern is the sequence of its atoms.
\<close>

datatype atom = Lit codepoint | WordB

type_synonym regex = "atom list"

definition lits :: "string \<Rightarrow> regex" where
  "lits s = map (\<lambda>c. Lit (of_char c)) s"

fun word_opt :: "(codepoint \<Rightarrow> bool) \<Rightarrow> codepoint option \<Rightarrow> bool" where
  "word_opt U None = False"
| "word_opt U (Some c) = is_word U c"

fun first_cp :: "pystr \<Rightarrow> codepoint option" where
  "first_cp [] = None"
| "first_cp (c # cs) = Some c"

text \<open>
  \<open>match_at U p prev s\<close> matches the pattern \<open>p\<close> at a position of the scanned string:
  \<open>prev\<close> is the character before the position (\<open>None\<close> at the start of the string) and
  \<open>s\<close> the string from the position on. A match gives the character before its end and
  the rest of the string. \<^verbatim>\<open>\b\<close> holds where exactly one of the two neighbours is a word
  character, a missing neighbour counting as a non-word character.
\<close>

fun match_at ::
  "(codepoint \<Rightarrow> bool) \<Rightarrow> regex \<Rightarrow> codepoint option \<Rightarrow> pystr \<Rightarrow> (codepoint option \<times> pystr) option"
where
  "match_at U [] prev s = Some (prev, s)"
| "match_at U (Lit c # as) prev [] = None"
| "match_at U (Lit c # as) prev (x # xs) = (if x = c then match_at U as (Some x) xs else None)"
| "match_at U (WordB # as) prev s =
     (if word_opt U prev \<noteq> word_opt U (first_cp s) then match_at U as prev s else None)"

text \<open>
  \<^verbatim>\<open>re.sub(pattern, replacement, content)\<close>: the string is scanned from the left; at a
  match the replacement is emitted and the scan goes on behind the match, elsewhere the
  character is copied. The replacements of the program contain no backslash, so they are
  emitted as they are. An empty match is replaced too and the scan moves one character
  on (no pattern of the program has one).
\<close>

function re_sub_from ::
  "(codepoint \<Rightarrow> bool) \<Rightarrow> regex \<Rightarrow> pystr \<Rightarrow> codepoint option \<Rightarrow> pystr \<Rightarrow> pystr"
where
  "re_sub_from U p r prev s =
     (case match_at U p prev s of
        Some (prev', rest) \<Rightarrow>
          if length rest < length s then r @ re_sub_from U p r prev' rest
          else (case s of [] \<Rightarrow> r | c # cs \<Rightarrow> r @ c # re_sub_from U p r (Some c) cs)
      | None \<Rightarrow> (case s of [] \<Rightarrow> [] | c # cs \<Rightarrow> c # re_sub_from U p r (Some c) cs))"
  by pat_completeness auto
termination
  by (relation "measure (\<lambda>(U, p, r, prev, s). length s)") auto

text \<open>\<^verbatim>\<open>re.findall(pattern, content)\<close>: the matched substrings of the same scan.\<close>

function re_findall_from ::
  "(codepoint \<Rightarrow> bool) \<Rightarrow> regex \<Rightarrow> codepoint option \<Rightarrow> pystr \<Rightarrow> pystr list"
where
  "re_findall_from U p prev s =
     (case match_at U p prev s of
        Some (prev', rest) \<Rightarrow>
          if length rest < length s
          then take (length s - length rest) s # re_findall_from U p prev' rest
          else (case s of [] \<Rightarrow> [[]] | c # cs \<Rightarrow> [] # re_findall_from U p (Some c) cs)
      | None \<Rightarrow> (case s of [] \<Rightarrow> [] | c # cs \<Rightarrow> re_findall_from U p (Some c) cs))"
  by pat_completeness auto
termination
  by (relation "measure (\<lambda>(U, p, prev, s). length s)") auto

definition re_sub :: "(codepoint \<Rightarrow> bool) \<Rightarrow> regex \<Rightarrow> pystr \<Rightarrow> pystr \<Rightarrow> pystr" where
  "re_sub U p r s = re_sub_from U p r None s"

definition re_findall :: "(codepoint \<Rightarrow> bool) \<Rightarrow> regex \<Rightarrow> pystr \<Rightarrow> pystr list" where
  "re_findall U p s = re_findall_from U p None s"

section \<open>The three pattern groups\<close>

text \<open>
  The three shapes of pattern in the program: \<^verbatim>\<open>r'\.NAME\b'\<close>, \<^verbatim>\<open>r'\bNAME:'\<close> and
  \<^verbatim>\<open>r'\bNAME\b'\<close>. The dictionary \<^verbatim>\<open>FIELD_MAPPINGS\<close> of the program is read by no
  function and is left out.
\<close>

definition member_access :: "string \<Rightarrow> regex" where
  "member_access n = Lit (of_char CHR ''.'') # lits n @ [WordB]"

definition object_key :: "string \<Rightarrow> regex" where
  "object_key n = WordB # lits n @ [Lit (of_char CHR '':'')]"

definition bare :: "string \<Rightarrow> regex" where
  "bare n = WordB # lits n @ [WordB]"

type_synonym rule = "regex \<times> pystr"

definition PROPERTY_PATTERNS :: "rule list" where
  "PROPERTY_PATTERNS =
   [(member_access ''orderId'', cps ''.order_id''),
    (member_access ''brandId'', cps ''.brand_id''),
    (member_access ''clientId'', cps ''.client_id''),
    (member_access ''workspaceId'', cps ''.workspace_id''),
    (member_access ''userId'', cps ''.user_id''),
    (member_access ''designId'', cps ''.design_id''),
    (member_access ''templateId'', cps ''.template_id''),
    (member_access ''createdAt'', cps ''.created_at''),
    (member_access ''updatedAt'', cps ''.updated_at''),
    (member_access ''poNumber'', cps ''.po_number''),
    (member_access ''totalQty'', cps ''.total_qty''),
    (member_access ''isActive'', cps ''.is_active''),
    (member_access ''isDefault'', cps ''.is_default''),
    (member_access ''targetDeliveryDate'', cps ''.target_delivery_date''),
    (member_access ''routingSteps'', cps ''.routing_steps''),
    (member_access ''designAssets'', cps ''.design_assets'')]"

definition OBJECT_PATTERNS :: "rule list" where
  "OBJECT_PATTERNS =
   [(object_key ''orderId'', cps ''order_id:''),
    (object_key ''brandId'', cps ''brand_id:''),
    (object_key ''clientId'', cps ''client_id:''),
    (object_key ''workspaceId'', cps ''workspace_id:''),
    (object_key ''userId'', cps ''user_id:''),
    (object_key ''designId'', cps ''design_id:''),
    (object_key ''templateId'', cps ''template_id:''),
    (object_key ''createdAt'', cps ''created_at:''),
    (object_key ''updatedAt'', cps ''updated_at:''),
    (object_key ''poNumber'', cps ''po_number:''),
    (object_key ''totalQty'', cps ''total_qty:''),
    (object_key ''isActive'', cps ''is_active:''),
    (object_key ''isDefault'', cps ''is_default:''),
    (object_key ''targetDeliveryDate'', cps ''target_delivery_date:''),
    (object_key ''routingSteps'', cps ''routing_steps:''),
    (object_key ''designAssets'', cps ''design_assets:''),
    (object_key ''standardSpec'', cps ''standard_spec:'')]"

definition VARIABLE_PATTERNS :: "rule list" where
  "VARIABLE_PATTERNS =
   [(bare ''userId'', cps ''user_id''),
    (bare ''orderId'', cps ''order_id''),
    (bare ''brandId'', cps ''brand_id''),
    (bare ''clientId'', cps ''client_id''),
    (bare ''workspaceId'', cps ''workspace_id''),
    (bare ''designId'', cps ''design_id''),
    (bare ''templateId'', cps ''template_id''),
    (bare ''routingStepId'', cps ''routing_step_id''),
    (bare ''routeTemplateId'', cps ''route_template_id''),
    (bare ''standardSpec'', cps ''standard_spec''),
    (bare ''totalQty'', cps ''total_qty''),
    (bare ''targetDeliveryDate'', cps ''target_delivery_date'')]"

section \<open>Rewriting one text\<close>

text \<open>
  One \<^verbatim>\<open>for pattern, replacement in ...\<close> loop of \<^verbatim>\<open>fix_file\<close>, on the pair of the
  current content and the running count: the count grows by the number of matches only
  when the substitution changed the content.
\<close>

fun apply_patterns :: "(codepoint \<Rightarrow> bool) \<Rightarrow> rule list \<Rightarrow> pystr \<times> nat \<Rightarrow> pystr \<times> nat" where
  "apply_patterns U [] (content, changes) = (content, changes)"
| "apply_patterns U ((pattern, replacement) # rules) (content, changes) =
     (let new_content = re_sub U pattern replacement content
      in if new_content \<noteq> content
         then apply_patterns U rules
                (new_content, changes + length (re_findall U pattern content))
         else apply_patterns U rules (content, changes))"

text \<open>
  The three loops of \<^verbatim>\<open>fix_file\<close> in their order, from \<^verbatim>\<open>changes = 0\<close>: the rewritten
  content and the number of changes.
\<close>

definition fix_content :: "(codepoint \<Rightarrow> bool) \<Rightarrow> pystr \<Rightarrow> pystr \<times> nat" where
  "fix_content U content =
     apply_patterns U VARIABLE_PATTERNS
       (apply_patterns U OBJECT_PATTERNS
         (apply_patterns U PROPERTY_PATTERNS (content, 0)))"

section \<open>Files and the directory walk\<close>

text \<open>
  The file system as the program sees it: what opening and reading a path gives (the
  decoded text, or the exception raised by \<^verbatim>\<open>open\<close>, \<^verbatim>\<open>read\<close> or the decoder), whether
  and how writing a path raises, the writes that were completed, and the printed lines.
  An exception is represented by its message.

  Writing a file can raise at two places. When \<^verbatim>\<open>open(file_path, 'w')\<close> raises, the file
  is as it was. When \<^verbatim>\<open>open\<close> succeeds it has truncated the file, and \<^verbatim>\<open>f.write\<close> or
  the flush on leaving the \<^verbatim>\<open>with\<close> block can still raise: then the file holds whatever
  was written until then, given here by what reading it afterwards would give.
\<close>

type_synonym exn = pystr

datatype write_failure =
  Open_raises exn
| Write_raises exn "exn + pystr"

datatype out_line =
  Error_processing pystr exn
| Fixed nat pystr
| Completed
| Files_changed nat
| Total_changes nat

record world =
  disk :: "pystr \<Rightarrow> exn + pystr"
  write_error :: "pystr \<Rightarrow> write_failure option"
  writes :: "(pystr \<times> pystr) list"
  stdout :: "out_line list"

text \<open>
  The body of the \<^verbatim>\<open>try\<close> of \<^verbatim>\<open>fix_file\<close>: it raises, leaving the file system as it
  is at that moment, or returns the count.
\<close>

definition fix_file_body ::
  "(codepoint \<Rightarrow> bool) \<Rightarrow> world \<Rightarrow> pystr \<Rightarrow> exn \<times> world + world \<times> nat"
where
  "fix_file_body U w file_path =
     (case disk w file_path of
        Inl e \<Rightarrow> Inl (e, w)
      | Inr original_content \<Rightarrow>
          (case fix_content U original_content of
             (content, changes) \<Rightarrow>
               if content \<noteq> original_content
               then (case write_error w file_path of
                       Some (Open_raises e) \<Rightarrow> Inl (e, w)
                     | Some (Write_raises e left) \<Rightarrow>
                         Inl (e, w\<lparr>disk := (disk w)(file_path := left)\<rparr>)
                     | None \<Rightarrow>
                         Inr (w\<lparr>disk := (disk w)(file_path := Inr content),
                                writes := writes w @ [(file_path, content)]\<rparr>, changes))
               else Inr (w, changes)))"

text \<open>\<^verbatim>\<open>fix_file\<close>: the body under \<^verbatim>\<open>except Exception\<close>, which prints and returns 0.\<close>

definition fix_file :: "(codepoint \<Rightarrow> bool) \<Rightarrow> world \<Rightarrow> pystr \<Rightarrow> world \<times> nat" where
  "fix_file U w file_path =
     (case fix_file_body U w file_path of
        Inl (e, w') \<Rightarrow> (w'\<lparr>stdout := stdout w' @ [Error_processing file_path e]\<rparr>, 0)
      | Inr (w', changes) \<Rightarrow> (w', changes))"

definition endswith :: "pystr \<Rightarrow> pystr \<Rightarrow> bool" where
  "endswith s suf =
     (length suf \<le> length s \<and> drop (length s - length suf) s = suf)"

definition is_ts_file :: "pystr \<Rightarrow> bool" where
  "is_ts_file file = (endswith file (cps ''.ts'') \<or> endswith file (cps ''.tsx''))"

text \<open>\<^verbatim>\<open>os.path.join(root, file)\<close> with POSIX separators.\<close>

definition path_join :: "pystr \<Rightarrow> pystr \<Rightarrow> pystr" where
  "path_join root file =
     (if first_cp file = Some (of_char CHR ''/'') then file
      else if root = [] \<or> last root = of_char CHR ''/'' then root @ file
      else root @ cps ''/'' @ file)"

text \<open>
  The inner loop of \<^verbatim>\<open>main\<close> over the files of one directory, on the state of the file
  system and the two counters \<^verbatim>\<open>total_changes\<close> and \<^verbatim>\<open>files_changed\<close>.
\<close>

fun process_files ::
  "(codepoint \<Rightarrow> bool) \<Rightarrow> pystr \<Rightarrow> pystr list \<Rightarrow> world \<times> nat \<times> nat \<Rightarrow> world \<times> nat \<times> nat"
where
  "process_files U root [] st = st"
| "process_files U root (file # files) (w, total_changes, files_changed) =
     (if is_ts_file file
      then (case fix_file U w (path_join root file) of
              (w', changes) \<Rightarrow>
                if changes > 0
                then process_files U root files
                       (w'\<lparr>stdout := stdout w' @ [Fixed changes (path_join root file)]\<rparr>,
                        total_changes + changes, files_changed + 1)
                else process_files U root files (w', total_changes, files_changed))
      else process_files U root files (w, total_changes, files_changed))"

text \<open>The outer loop over the triples \<^verbatim>\<open>(root, dirs, files)\<close> that \<^verbatim>\<open>os.walk\<close> yields.\<close>

fun walk_loop ::
  "(codepoint \<Rightarrow> bool) \<Rightarrow> (pystr \<times> pystr list \<times> pystr list) list \<Rightarrow>
   world \<times> nat \<times> nat \<Rightarrow> world \<times> nat \<times> nat"
where
  "walk_loop U [] st = st"
| "walk_loop U ((root, dirs, files) # rest) st = walk_loop U rest (process_files U root files st)"

text \<open>
  \<^verbatim>\<open>main\<close>, with \<^verbatim>\<open>os.walk\<close> as a parameter: the walk of the fixed directory
  \<^verbatim>\<open>src\<close>, then the three summary lines.
\<close>

definition main ::
  "(codepoint \<Rightarrow> bool) \<Rightarrow> (pystr \<Rightarrow> (pystr \<times> pystr list \<times> pystr list) list) \<Rightarrow> world \<Rightarrow> world"
where
  "main U os_walk w =
     (case walk_loop U (os_walk (cps ''src'')) (w, 0, 0) of
        (w', total_changes, files_changed) \<Rightarrow>
          w'\<lparr>stdout := stdout w' @
                [Completed, Files_changed files_changed, Total_changes total_changes]\<rparr>)"

section \<open>The rewrite as the specification words it\<close>

text \<open>
  The two functions below are not in the program. They follow the specification's
  description of the rewrite, "for each rule, find all non-overlapping matches of the
  pattern in the current text, replace them with the replacement, and add the
  pre-replacement match count to a running total", and are compared with
  \<open>fix_content\<close> further down.
\<close>

fun sub_all :: "(codepoint \<Rightarrow> bool) \<Rightarrow> rule list \<Rightarrow> pystr \<Rightarrow> pystr" where
  "sub_all U [] content = content"
| "sub_all U ((pattern, replacement) # rules) content =
     sub_all U rules (re_sub U pattern replacement content)"

fun count_matches :: "(codepoint \<Rightarrow> bool) \<Rightarrow> rule list \<Rightarrow> pystr \<Rightarrow> nat" where
  "count_matches U [] content = 0"
| "count_matches U ((pattern, replacement) # rules) content =
     length (re_findall U pattern content)
       + count_matches U rules (re_sub U pattern replacement content)"

text \<open>The rules of the three groups in the order in which \<^verbatim>\<open>fix_file\<close> applies them.\<close>

definition ALL_PATTERNS :: "rule list" where
  "ALL_PATTERNS = PROPERTY_PATTERNS @ OBJECT_PATTERNS @ VARIABLE_PATTERNS"

text \<open>
  The driver as the specification words it: the files whose name ends in one of the two
  suffixes, in the order of the walk, and what happens for one of them ("if the returned
  count is nonzero, increments a files-changed counter, adds to a total-changes counter,
  and emits a per-file progress line"). Ending in a suffix is the library's \<open>suffix\<close>,
  not the program's test: \<open>suffix xs ys\<close> holds when \<open>ys = zs @ xs\<close> for some \<open>zs\<close>.
\<close>

definition ts_name :: "pystr \<Rightarrow> bool" where
  "ts_name name = (suffix (cps ''.ts'') name \<or> suffix (cps ''.tsx'') name)"

definition candidates :: "(pystr \<times> pystr list \<times> pystr list) list \<Rightarrow> pystr list" where
  "candidates walk =
     concat (map (\<lambda>(root, dirs, files). map (path_join root) (filter ts_name files)) walk)"

definition process_one ::
  "(codepoint \<Rightarrow> bool) \<Rightarrow> pystr \<Rightarrow> world \<times> nat \<times> nat \<Rightarrow> world \<times> nat \<times> nat"
where
  "process_one U file_path st =
     (case st of (w, total_changes, files_changed) \<Rightarrow>
        (case fix_file U w file_path of
           (w', changes) \<Rightarrow>
             if changes \<noteq> 0
             then (w'\<lparr>stdout := stdout w' @ [Fixed changes file_path]\<rparr>,
                   total_changes + changes, files_changed + 1)
             else (w', total_changes, files_changed)))"

section \<open>Auxiliary notions for the proofs\<close>

text \<open>
  The defining equations of the two scans are applied by hand in the proofs.
\<close>

declare re_sub_from.simps [simp del] re_findall_from.simps [simp del]

text \<open>
  A match consumes one character for each literal of the pattern. A rule grows the text
  when its replacement is longer than that.
\<close>

fun nlits :: "regex \<Rightarrow> nat" where
  "nlits [] = 0"
| "nlits (Lit c # as) = Suc (nlits as)"
| "nlits (WordB # as) = nlits as"

definition grows :: "rule \<Rightarrow> bool" where
  "grows rl = (nlits (fst rl) < length (snd rl))"

text \<open>
  A word is a maximal run of word characters. \<open>tmap U f\<close> rewrites a text word by
  word: each word \<open>w\<close> becomes \<open>f prev next w\<close>, where \<open>prev\<close> and \<open>next\<close> are
  the characters around the word, and every other character stays.
\<close>

definition wordy :: "(codepoint \<Rightarrow> bool) \<Rightarrow> pystr \<Rightarrow> bool" where
  "wordy U w = list_all (is_word U) w"

definition starts_word :: "(codepoint \<Rightarrow> bool) \<Rightarrow> pystr \<Rightarrow> bool" where
  "starts_word U s = word_opt U (first_cp s)"

function tmap ::
  "(codepoint \<Rightarrow> bool) \<Rightarrow> (codepoint option \<Rightarrow> codepoint option \<Rightarrow> pystr \<Rightarrow> pystr) \<Rightarrow>
   codepoint option \<Rightarrow> pystr \<Rightarrow> pystr"
where
  "tmap U f prev [] = []"
| "tmap U f prev (c # cs) =
     (if is_word U c
      then f prev (first_cp (dropWhile (is_word U) cs)) (c # takeWhile (is_word U) cs)
           @ tmap U f None (dropWhile (is_word U) cs)
      else c # tmap U f (Some c) cs)"
  by pat_completeness auto
termination
  by (relation "measure (\<lambda>(U, f, prev, s). length s)")
     (auto simp: length_dropWhile_le less_Suc_eq_le)

declare tmap.simps(2) [simp del]

definition keeps_words ::
  "(codepoint \<Rightarrow> bool) \<Rightarrow> (codepoint option \<Rightarrow> codepoint option \<Rightarrow> pystr \<Rightarrow> pystr) \<Rightarrow> bool"
where
  "keeps_words U f = (\<forall>p n w. w \<noteq> [] \<and> wordy U w \<longrightarrow> f p n w \<noteq> [] \<and> wordy U (f p n w))"

text \<open>
  What the three shapes of rule do to one word: \<^verbatim>\<open>\bNAME\b\<close> renames the word
  \<^verbatim>\<open>NAME\<close>, \<^verbatim>\<open>\bNAME:\<close> renames it before a colon, \<^verbatim>\<open>\.NAME\b\<close> behind a dot.
\<close>

definition step_bare :: "pystr \<Rightarrow> pystr \<Rightarrow> codepoint option \<Rightarrow> codepoint option \<Rightarrow> pystr \<Rightarrow> pystr" where
  "step_bare n r p nx w = (if w = n then r else w)"

definition step_key :: "codepoint \<Rightarrow> pystr \<Rightarrow> pystr \<Rightarrow> codepoint option \<Rightarrow> codepoint option \<Rightarrow> pystr \<Rightarrow> pystr" where
  "step_key col n r p nx w = (if w = n \<and> nx = Some col then r else w)"

definition step_member :: "codepoint \<Rightarrow> pystr \<Rightarrow> pystr \<Rightarrow> codepoint option \<Rightarrow> codepoint option \<Rightarrow> pystr \<Rightarrow> pystr" where
  "step_member d n r p nx w = (if w = n \<and> p = Some d then r else w)"

text \<open>
  The rules once more, as the kind of the rule, the name and the new name; \<open>rule_of\<close>
  gives the pattern and the replacement back (46 is the dot, 58 the colon, 95 the
  underscore).
\<close>

datatype kind = Member | Key | Bare

type_synonym token_rule = "kind \<times> pystr \<times> pystr"

fun rule_of :: "token_rule \<Rightarrow> rule" where
  "rule_of (Member, n, r) = (Lit 46 # map Lit n @ [WordB], 46 # r)"
| "rule_of (Key, n, r) = (WordB # map Lit n @ [Lit 58], r @ [58])"
| "rule_of (Bare, n, r) = (WordB # map Lit n @ [WordB], r)"

fun step :: "token_rule \<Rightarrow> codepoint option \<Rightarrow> codepoint option \<Rightarrow> pystr \<Rightarrow> pystr" where
  "step (Member, n, r) = step_member 46 n r"
| "step (Key, n, r) = step_key 58 n r"
| "step (Bare, n, r) = step_bare n r"

fun steps :: "token_rule list \<Rightarrow> codepoint option \<Rightarrow> codepoint option \<Rightarrow> pystr \<Rightarrow> pystr" where
  "steps [] p nx w = w"
| "steps (t # ts) p nx w = steps ts p nx (step t p nx w)"

definition member_names :: "(string \<times> string) list" where
  "member_names =
   [(''orderId'', ''order_id''), (''brandId'', ''brand_id''), (''clientId'', ''client_id''),
    (''workspaceId'', ''workspace_id''), (''userId'', ''user_id''), (''designId'', ''design_id''),
    (''templateId'', ''template_id''), (''createdAt'', ''created_at''),
    (''updatedAt'', ''updated_at''), (''poNumber'', ''po_number''), (''totalQty'', ''total_qty''),
    (''isActive'', ''is_active''), (''isDefault'', ''is_default''),
    (''targetDeliveryDate'', ''target_delivery_date''), (''routingSteps'', ''routing_steps''),
    (''designAssets'', ''design_assets'')]"

definition key_names :: "(string \<times> string) list" where
  "key_names = member_names @ [(''standardSpec'', ''standard_spec'')]"

definition bare_names :: "(string \<times> string) list" where
  "bare_names =
   [(''userId'', ''user_id''), (''orderId'', ''order_id''), (''brandId'', ''brand_id''),
    (''clientId'', ''client_id''), (''workspaceId'', ''workspace_id''),
    (''designId'', ''design_id''), (''templateId'', ''template_id''),
    (''routingStepId'', ''routing_step_id''), (''routeTemplateId'', ''route_template_id''),
    (''standardSpec'', ''standard_spec''), (''totalQty'', ''total_qty''),
    (''targetDeliveryDate'', ''target_delivery_date'')]"

definition token_rules :: "token_rule list" where
  "token_rules =
     map (\<lambda>(n, r). (Member, cps n, cps r)) member_names
     @ map (\<lambda>(n, r). (Key, cps n, cps r)) key_names
     @ map (\<lambda>(n, r). (Bare, cps n, cps r)) bare_names"

text \<open>
  Every name is a non-empty run of ASCII word characters without an underscore, every
  new name one with an underscore.
\<close>

definition snake :: "pystr \<Rightarrow> bool" where
  "snake r = (r \<noteq> [] \<and> list_all ascii_word r \<and> 95 \<in> set r)"

definition camel :: "pystr \<Rightarrow> bool" where
  "camel n = (n \<noteq> [] \<and> list_all ascii_word n \<and> 95 \<notin> set n)"

definition sound :: "token_rule \<Rightarrow> bool" where
  "sound t = (camel (fst (snd t)) \<and> snake (snd (snd t)))"

section \<open>Lemmas about the scans\<close>

lemma re_sub_from_Nil:
  "re_sub_from U p r prev [] = (case match_at U p prev [] of Some x \<Rightarrow> r | None \<Rightarrow> [])"
  by (subst re_sub_from.simps) (auto split: option.splits)

lemma re_findall_from_Nil:
  "re_findall_from U p prev [] = (case match_at U p prev [] of Some x \<Rightarrow> [[]] | None \<Rightarrow> [])"
  by (subst re_findall_from.simps) (auto split: option.splits)

lemma re_sub_from_match:
  "match_at U p prev s = Some (prev', rest) \<Longrightarrow> length rest < length s \<Longrightarrow>
   re_sub_from U p r prev s = r @ re_sub_from U p r prev' rest"
  by (subst re_sub_from.simps) simp

lemma re_findall_from_match:
  "match_at U p prev s = Some (prev', rest) \<Longrightarrow> length rest < length s \<Longrightarrow>
   re_findall_from U p prev s = take (length s - length rest) s # re_findall_from U p prev' rest"
  by (subst re_findall_from.simps) simp

lemma re_sub_from_empty_match:
  "match_at U p prev (c # cs) = Some (prev', rest) \<Longrightarrow> \<not> length rest < length (c # cs) \<Longrightarrow>
   re_sub_from U p r prev (c # cs) = r @ c # re_sub_from U p r (Some c) cs"
  by (subst re_sub_from.simps) simp

lemma re_findall_from_empty_match:
  "match_at U p prev (c # cs) = Some (prev', rest) \<Longrightarrow> \<not> length rest < length (c # cs) \<Longrightarrow>
   re_findall_from U p prev (c # cs) = [] # re_findall_from U p (Some c) cs"
  by (subst re_findall_from.simps) simp

lemma re_sub_from_skip:
  "match_at U p prev (c # cs) = None \<Longrightarrow>
   re_sub_from U p r prev (c # cs) = c # re_sub_from U p r (Some c) cs"
  by (subst re_sub_from.simps) simp

lemma re_findall_from_skip:
  "match_at U p prev (c # cs) = None \<Longrightarrow>
   re_findall_from U p prev (c # cs) = re_findall_from U p (Some c) cs"
  by (subst re_findall_from.simps) simp

lemma match_at_nlits:
  "match_at U p prev s = Some (prev', rest) \<Longrightarrow> length s = length rest + nlits p"
  by (induction U p prev s rule: match_at.induct) (auto split: if_splits)

lemma re_sub_from_length:
  "length (re_sub_from U p r prev s) + nlits p * length (re_findall_from U p prev s)
     = length s + length r * length (re_findall_from U p prev s)"
proof (induction U p r prev s rule: re_sub_from.induct)
  case (1 U p r prev s)
  show ?case
  proof (cases "match_at U p prev s")
    case None
    show ?thesis
    proof (cases s)
      case Nil
      then show ?thesis using None by (simp add: re_sub_from_Nil re_findall_from_Nil)
    next
      case (Cons c cs)
      have ih: "length (re_sub_from U p r (Some c) cs) + nlits p * length (re_findall_from U p (Some c) cs)
         = length cs + length r * length (re_findall_from U p (Some c) cs)"
        using "1.IH" None Cons by simp
      show ?thesis using None Cons ih
        by (simp add: re_sub_from_skip re_findall_from_skip)
    qed
  next
    case (Some a)
    obtain prev' rest where a: "a = (prev', rest)" by (cases a)
    have m: "match_at U p prev s = Some (prev', rest)" using Some a by simp
    have len: "length s = length rest + nlits p" using m match_at_nlits by blast
    show ?thesis
    proof (cases "length rest < length s")
      case True
      have ih: "length (re_sub_from U p r prev' rest) + nlits p * length (re_findall_from U p prev' rest)
         = length rest + length r * length (re_findall_from U p prev' rest)"
        using "1.IH" m True by simp
      show ?thesis
        unfolding re_sub_from_match[OF m True] re_findall_from_match[OF m True]
        using ih len by (simp add: algebra_simps)
    next
      case False
      then have z: "nlits p = 0" using len by simp
      show ?thesis
      proof (cases s)
        case Nil
        then show ?thesis using m z by (simp add: re_sub_from_Nil re_findall_from_Nil)
      next
        case (Cons c cs)
        have ih: "length (re_sub_from U p r (Some c) cs) + nlits p * length (re_findall_from U p (Some c) cs)
         = length cs + length r * length (re_findall_from U p (Some c) cs)"
          using "1.IH" m False Cons by simp
        have m': "match_at U p prev (c # cs) = Some (prev', rest)" using m Cons by simp
        have F': "\<not> length rest < length (c # cs)" using False Cons by simp
        show ?thesis unfolding Cons re_sub_from_empty_match[OF m' F'] re_findall_from_empty_match[OF m' F']
          using ih z by simp
      qed
    qed
  qed
qed

lemma re_sub_from_no_match:
  "re_findall_from U p prev s = [] \<Longrightarrow> re_sub_from U p r prev s = s"
proof (induction U p r prev s rule: re_sub_from.induct)
  case (1 U p r prev s)
  show ?case
  proof (cases "match_at U p prev s")
    case None
    show ?thesis
    proof (cases s)
      case Nil
      then show ?thesis using None by (simp add: re_sub_from_Nil)
    next
      case (Cons c cs)
      have "re_findall_from U p (Some c) cs = []"
        using "1.prems" None Cons by (simp add: re_findall_from_skip)
      then have "re_sub_from U p r (Some c) cs = cs" using "1.IH" None Cons by simp
      then show ?thesis using None Cons by (simp add: re_sub_from_skip)
    qed
  next
    case (Some a)
    obtain prev' rest where m: "match_at U p prev s = Some (prev', rest)" using Some by (cases a) simp
    have False
    proof (cases "length rest < length s")
      case True
      then show ?thesis using "1.prems" re_findall_from_match[OF m True] by simp
    next
      case False
      then show ?thesis using "1.prems" m
        by (cases s) (simp_all add: re_findall_from_Nil re_findall_from_empty_match)
    qed
    then show ?thesis ..
  qed
qed

lemma re_sub_from_changes_iff:
  assumes "nlits p < length r"
  shows "re_sub_from U p r prev s \<noteq> s \<longleftrightarrow> re_findall_from U p prev s \<noteq> []"
proof
  assume "re_sub_from U p r prev s \<noteq> s"
  then show "re_findall_from U p prev s \<noteq> []" using re_sub_from_no_match by blast
next
  assume ne: "re_findall_from U p prev s \<noteq> []"
  let ?k = "length (re_findall_from U p prev s)"
  have k: "0 < ?k" using ne by simp
  have "nlits p * ?k < length r * ?k" using assms k by simp
  then have "length s < length (re_sub_from U p r prev s)"
    using re_sub_from_length[of U p r prev s] by linarith
  then show "re_sub_from U p r prev s \<noteq> s" by auto
qed

subsection \<open>Rewriting word by word\<close>

lemma starts_word_simps [simp]:
  "starts_word U [] = False"
  "starts_word U (c # cs) = is_word U c"
  by (simp_all add: starts_word_def)

lemma wordy_simps [simp]:
  "wordy U [] = True"
  "wordy U (c # cs) = (is_word U c \<and> wordy U cs)"
  "wordy U (xs @ ys) = (wordy U xs \<and> wordy U ys)"
  by (simp_all add: wordy_def)

lemma tmap_sep: "\<not> is_word U c \<Longrightarrow> tmap U f prev (c # cs) = c # tmap U f (Some c) cs"
  by (simp add: tmap.simps(2))

lemma run_split:
  "wordy U w \<Longrightarrow> \<not> starts_word U rest \<Longrightarrow>
   takeWhile (is_word U) (w @ rest) = w \<and> dropWhile (is_word U) (w @ rest) = rest"
  by (induction w) (cases rest; simp)+

lemma tmap_token:
  assumes "w \<noteq> []" "wordy U w" "\<not> starts_word U rest"
  shows "tmap U f prev (w @ rest) = f prev (first_cp rest) w @ tmap U f None rest"
proof -
  obtain c w' where w: "w = c # w'" using assms(1) by (cases w) auto
  have "wordy U w'" "is_word U c" using assms(2) w by simp_all
  then show ?thesis using run_split[of U w' rest] assms(3) w
    by (simp add: tmap.simps(2))
qed

lemma token_at_start:
  assumes "starts_word U s"
  obtains w rest where "s = w @ rest" "w \<noteq> []" "wordy U w" "\<not> starts_word U rest"
    "length rest < length s"
proof -
  obtain c cs where s: "s = c # cs" and c: "is_word U c" using assms by (cases s) auto
  let ?w = "c # takeWhile (is_word U) cs" and ?rest = "dropWhile (is_word U) cs"
  have 1: "s = ?w @ ?rest" using s by simp
  have 2: "wordy U ?w" using c by (auto simp: wordy_def list_all_iff dest: set_takeWhileD)
  have 3: "\<not> starts_word U ?rest"
    by (induction cs) auto
  have 4: "length ?rest < length s" using s by (simp add: length_dropWhile_le less_Suc_eq_le)
  show ?thesis using that[OF 1 _ 2 3 4] by simp
qed

lemma tmap_prev_irrelevant:
  "\<not> starts_word U s \<Longrightarrow> tmap U f p s = tmap U f q s"
  by (cases s) (simp_all add: tmap_sep)

lemma tmap_first:
  "\<not> starts_word U s \<Longrightarrow> first_cp (tmap U f p s) = first_cp s"
  by (cases s) (simp_all add: tmap_sep)

lemma tmap_compose:
  assumes g: "keeps_words U g"
  shows "tmap U f prev (tmap U g prev s) = tmap U (\<lambda>p n w. f p n (g p n w)) prev s"
proof (induction "length s" arbitrary: s prev rule: less_induct)
  case less
  show ?case
  proof (cases "starts_word U s")
    case True
    then obtain w rest where s: "s = w @ rest" and w: "w \<noteq> []" "wordy U w"
      and rest: "\<not> starts_word U rest" and len: "length rest < length s"
      by (rule token_at_start)
    let ?R = "tmap U g None rest"
    have gw: "g prev (first_cp rest) w \<noteq> []" "wordy U (g prev (first_cp rest) w)"
      using g w by (auto simp: keeps_words_def)
    have R: "\<not> starts_word U ?R" "first_cp ?R = first_cp rest"
      using rest tmap_first[OF rest, of g None] by (simp_all add: starts_word_def)
    have "tmap U f prev (tmap U g prev s) = tmap U f prev (g prev (first_cp rest) w @ ?R)"
      unfolding s by (simp add: tmap_token[OF w rest])
    also have "\<dots> = f prev (first_cp rest) (g prev (first_cp rest) w) @ tmap U f None ?R"
      using tmap_token[OF gw R(1), of f prev] R(2) by simp
    also have "tmap U f None ?R = tmap U (\<lambda>p n w. f p n (g p n w)) None rest"
      using less[OF len] .
    finally show ?thesis unfolding s by (simp add: tmap_token[OF w rest])
  next
    case False
    show ?thesis
    proof (cases s)
      case Nil
      then show ?thesis by simp
    next
      case (Cons c cs)
      then have c: "\<not> is_word U c" using False by simp
      have "length cs < length s" using Cons by simp
      from less[OF this] show ?thesis using c Cons by (simp add: tmap_sep)
    qed
  qed
qed

lemma tmap_cong:
  assumes "\<And>p n w. w \<noteq> [] \<Longrightarrow> wordy U w \<Longrightarrow> f p n w = g p n w"
  shows "tmap U f prev s = tmap U g prev s"
proof (induction "length s" arbitrary: s prev rule: less_induct)
  case less
  show ?case
  proof (cases "starts_word U s")
    case True
    then obtain w rest where s: "s = w @ rest" and w: "w \<noteq> []" "wordy U w"
      and rest: "\<not> starts_word U rest" and len: "length rest < length s"
      by (rule token_at_start)
    show ?thesis unfolding s using less[OF len] assms[OF w]
      by (simp add: tmap_token[OF w rest])
  next
    case False
    show ?thesis
    proof (cases s)
      case Nil
      then show ?thesis by simp
    next
      case (Cons c cs)
      then have c: "\<not> is_word U c" using False by simp
      have "length cs < length s" using Cons by simp
      from less[OF this] show ?thesis using c Cons by (simp add: tmap_sep)
    qed
  qed
qed

subsection \<open>The three shapes of pattern, word by word\<close>

lemma match_lits:
  "match_at U (map Lit n @ as) prev (n @ rest)
     = match_at U as (if n = [] then prev else Some (last n)) rest"
  by (induction n arbitrary: prev) auto

lemma match_lits_D:
  "match_at U (map Lit n @ as) prev s = Some x \<Longrightarrow> \<exists>rest. s = n @ rest"
proof (induction n arbitrary: prev s)
  case Nil
  then show ?case by simp
next
  case (Cons c n)
  then show ?case by (cases s) (auto split: if_splits)
qed

lemma token_unique:
  assumes "w @ rest = n @ rest'" "wordy U w" "wordy U n"
    "\<not> starts_word U rest" "\<not> starts_word U rest'"
  shows "w = n"
proof -
  have "takeWhile (is_word U) (w @ rest) = w" using run_split[OF assms(2,4)] by blast
  moreover have "takeWhile (is_word U) (n @ rest') = n" using run_split[OF assms(3,5)] by blast
  ultimately show ?thesis by (simp only: assms(1))
qed

lemma match_name_boundary:
  assumes n: "n \<noteq> []" "wordy U n" and w: "w \<noteq> []" "wordy U w"
    and rest: "\<not> starts_word U rest"
  shows "match_at U (map Lit n @ [WordB]) prev (w @ rest)
           = (if w = n then Some (Some (last n), rest) else None)"
proof (cases "w = n")
  case True
  have "is_word U (last n)" using n by (auto simp: wordy_def list_all_iff)
  then show ?thesis using True n rest by (simp add: match_lits starts_word_def)
next
  case False
  have "match_at U (map Lit n @ [WordB]) prev (w @ rest) = None"
  proof (rule ccontr)
    assume "match_at U (map Lit n @ [WordB]) prev (w @ rest) \<noteq> None"
    then obtain x where x: "match_at U (map Lit n @ [WordB]) prev (w @ rest) = Some x" by auto
    then obtain rest' where e: "w @ rest = n @ rest'" using match_lits_D by blast
    have ln: "is_word U (last n)" using n by (auto simp: wordy_def list_all_iff)
    have "match_at U [WordB] (Some (last n)) rest' = Some x"
      using x n unfolding e by (simp add: match_lits)
    then have "\<not> starts_word U rest'" using ln by (auto simp: starts_word_def split: if_splits)
    then have "w = n" using token_unique[OF e w(2) n(2) rest] by simp
    then show False using False by simp
  qed
  then show ?thesis using False by simp
qed

lemma match_name_colon:
  assumes n: "n \<noteq> []" "wordy U n" and w: "w \<noteq> []" "wordy U w"
    and rest: "\<not> starts_word U rest" and col: "\<not> is_word U col"
  shows "match_at U (map Lit n @ [Lit col]) prev (w @ rest)
           = (if w = n \<and> first_cp rest = Some col then Some (Some col, tl rest) else None)"
proof (cases "w = n \<and> first_cp rest = Some col")
  case True
  then obtain rest' where "rest = col # rest'" by (cases rest) auto
  then show ?thesis using True n by (simp add: match_lits)
next
  case False
  have "match_at U (map Lit n @ [Lit col]) prev (w @ rest) = None"
  proof (rule ccontr)
    assume "match_at U (map Lit n @ [Lit col]) prev (w @ rest) \<noteq> None"
    then obtain x where x: "match_at U (map Lit (n @ [col]) @ []) prev (w @ rest) = Some x"
      by auto
    then obtain rest' where "w @ rest = (n @ [col]) @ rest'" using match_lits_D by blast
    then have e: "w @ rest = n @ (col # rest')" by simp
    have "\<not> starts_word U (col # rest')" using col by simp
    then have "w = n" using token_unique[OF e w(2) n(2) rest] by simp
    then have "rest = col # rest'" using e by simp
    then show False using False \<open>w = n\<close> by simp
  qed
  then show ?thesis using False by simp
qed

lemma match_name_no_word:
  assumes "\<not> starts_word U s" "n \<noteq> []" "wordy U n"
  shows "match_at U (map Lit n @ as) prev s = None"
proof -
  obtain c n' where n: "n = c # n'" using assms(2) by (cases n) auto
  then have "is_word U c" using assms(3) by simp
  then show ?thesis using assms(1) n by (cases s) auto
qed

lemma re_sub_from_in_word:
  "is_word U x \<Longrightarrow> wordy U w \<Longrightarrow>
   re_sub_from U (WordB # as) r (Some x) (w @ rest)
     = w @ re_sub_from U (WordB # as) r (Some (last (x # w))) rest"
proof (induction w arbitrary: x)
  case Nil
  then show ?case by simp
next
  case (Cons c w)
  have "match_at U (WordB # as) (Some x) (c # w @ rest) = None" using Cons.prems by simp
  then show ?case using Cons by (simp add: re_sub_from_skip)
qed

lemma re_sub_from_over_word:
  "\<not> is_word U d \<Longrightarrow> wordy U w \<Longrightarrow>
   re_sub_from U (Lit d # as) r prev (w @ rest)
     = w @ re_sub_from U (Lit d # as) r (if w = [] then prev else Some (last w)) rest"
proof (induction w arbitrary: prev)
  case Nil
  then show ?case by simp
next
  case (Cons c w)
  have "c \<noteq> d" using Cons.prems by auto
  then have "match_at U (Lit d # as) prev (c # w @ rest) = None" by simp
  then show ?case using Cons by (simp add: re_sub_from_skip)
qed

lemma bare_tmap:
  assumes n: "n \<noteq> []" "wordy U n"
  shows "\<not> (word_opt U prev \<and> starts_word U s) \<Longrightarrow>
         re_sub_from U (WordB # map Lit n @ [WordB]) r prev s = tmap U (step_bare n r) q s"
proof (induction "length s" arbitrary: s prev q rule: less_induct)
  case less
  let ?p = "WordB # map Lit n @ [WordB]"
  show ?case
  proof (cases "starts_word U s")
    case True
    then have np: "\<not> word_opt U prev" using less.prems by simp
    from True obtain w rest where s: "s = w @ rest" and w: "w \<noteq> []" "wordy U w"
      and rest: "\<not> starts_word U rest" and len: "length rest < length s"
      by (rule token_at_start)
    have ih: "re_sub_from U ?p r pv rest = tmap U (step_bare n r) None rest" for pv
      using less.hyps[OF len, where prev=pv and q=None] rest by simp
    have m: "match_at U ?p prev s = (if w = n then Some (Some (last n), rest) else None)"
      using np True match_name_boundary[OF n w rest, of prev] unfolding s
      by (simp add: starts_word_def)
    have rhs: "tmap U (step_bare n r) q s
                 = step_bare n r q (first_cp rest) w @ tmap U (step_bare n r) None rest"
      unfolding s by (rule tmap_token[OF w rest])
    show ?thesis
    proof (cases "w = n")
      case True
      have "match_at U ?p prev s = Some (Some (last n), rest)" using m True by simp
      from re_sub_from_match[OF this len] show ?thesis
        using ih True rhs by (simp add: step_bare_def)
    next
      case False
      obtain c w' where cw: "w = c # w'" using w(1) by (cases w) auto
      have "match_at U ?p prev (c # w' @ rest) = None" using m False s cw by simp
      from re_sub_from_skip[OF this]
      have "re_sub_from U ?p r prev s = w @ re_sub_from U ?p r (Some (last w)) rest"
        using w(2) cw s re_sub_from_in_word[of U c w' "map Lit n @ [WordB]" r rest] by simp
      then show ?thesis using ih False rhs by (simp add: step_bare_def)
    qed
  next
    case False
    show ?thesis
    proof (cases s)
      case Nil
      then show ?thesis using n by (simp add: re_sub_from_Nil match_name_no_word)
    next
      case (Cons c cs)
      then have c: "\<not> is_word U c" using False by simp
      have "match_at U ?p prev (c # cs) = None"
        using c n match_name_no_word[of U "c # cs" n "[WordB]" prev] by simp
      from re_sub_from_skip[OF this] show ?thesis
        using less.hyps[where s=cs and prev="Some c" and q="Some c"] c Cons by (simp add: tmap_sep)
    qed
  qed
qed

lemma key_tmap:
  assumes n: "n \<noteq> []" "wordy U n" and col: "\<not> is_word U col"
  shows "\<not> (word_opt U prev \<and> starts_word U s) \<Longrightarrow>
         re_sub_from U (WordB # map Lit n @ [Lit col]) (r @ [col]) prev s
           = tmap U (step_key col n r) q s"
proof (induction "length s" arbitrary: s prev q rule: less_induct)
  case less
  let ?p = "WordB # map Lit n @ [Lit col]"
  show ?case
  proof (cases "starts_word U s")
    case True
    then have np: "\<not> word_opt U prev" using less.prems by simp
    from True obtain w rest where s: "s = w @ rest" and w: "w \<noteq> []" "wordy U w"
      and rest: "\<not> starts_word U rest" and len: "length rest < length s"
      by (rule token_at_start)
    have ih: "re_sub_from U ?p (r @ [col]) pv rest = tmap U (step_key col n r) None rest" for pv
      using less.hyps[OF len, where prev=pv and q=None] rest by simp
    have m: "match_at U ?p prev s
               = (if w = n \<and> first_cp rest = Some col then Some (Some col, tl rest) else None)"
      using np True match_name_colon[OF n w rest col, of prev] unfolding s
      by (simp add: starts_word_def)
    have rhs: "tmap U (step_key col n r) q s
                 = step_key col n r q (first_cp rest) w @ tmap U (step_key col n r) None rest"
      unfolding s by (rule tmap_token[OF w rest])
    show ?thesis
    proof (cases "w = n \<and> first_cp rest = Some col")
      case True
      then obtain rest' where r': "rest = col # rest'" by (cases rest) auto
      have len': "length rest' < length s" using len r' by simp
      have m': "match_at U ?p prev s = Some (Some col, rest')" using m True r' by simp
      have ih': "re_sub_from U ?p (r @ [col]) (Some col) rest'
                   = tmap U (step_key col n r) (Some col) rest'"
        using less.hyps[OF len', where prev="Some col" and q="Some col"] col by simp
      from re_sub_from_match[OF m' len'] show ?thesis
        using ih' True col rhs r' by (simp add: step_key_def tmap_sep)
    next
      case False
      obtain c w' where cw: "w = c # w'" using w(1) by (cases w) auto
      have "match_at U ?p prev (c # w' @ rest) = None" using m False s cw by auto
      from re_sub_from_skip[OF this]
      have "re_sub_from U ?p (r @ [col]) prev s
              = w @ re_sub_from U ?p (r @ [col]) (Some (last w)) rest"
        using w(2) cw s re_sub_from_in_word[of U c w' "map Lit n @ [Lit col]" "r @ [col]" rest]
        by simp
      then show ?thesis using ih False rhs by (auto simp add: step_key_def)
    qed
  next
    case False
    show ?thesis
    proof (cases s)
      case Nil
      then show ?thesis using n by (simp add: re_sub_from_Nil match_name_no_word)
    next
      case (Cons c cs)
      then have c: "\<not> is_word U c" using False by simp
      have "match_at U ?p prev (c # cs) = None"
        using c n match_name_no_word[of U "c # cs" n "[Lit col]" prev] by simp
      from re_sub_from_skip[OF this] show ?thesis
        using less.hyps[where s=cs and prev="Some c" and q="Some c"] c Cons by (simp add: tmap_sep)
    qed
  qed
qed

lemma member_tmap:
  assumes n: "n \<noteq> []" "wordy U n" and d: "\<not> is_word U d"
  shows "(starts_word U s \<Longrightarrow>
            q = prev \<and> (prev = Some d \<longrightarrow> \<not> (\<exists>rest. s = n @ rest \<and> \<not> starts_word U rest))) \<Longrightarrow>
         re_sub_from U (Lit d # map Lit n @ [WordB]) (d # r) prev s
           = tmap U (step_member d n r) q s"
proof (induction "length s" arbitrary: s prev q rule: less_induct)
  case less
  let ?p = "Lit d # map Lit n @ [WordB]"
  show ?case
  proof (cases "starts_word U s")
    case True
    from True obtain w rest where s: "s = w @ rest" and w: "w \<noteq> []" "wordy U w"
      and rest: "\<not> starts_word U rest" and len: "length rest < length s"
      by (rule token_at_start)
    have ih: "re_sub_from U ?p (d # r) pv rest = tmap U (step_member d n r) None rest" for pv
      using less.hyps[OF len, where prev=pv and q=None] rest by simp
    have q: "q = prev" and pd: "prev = Some d \<Longrightarrow> w \<noteq> n"
      using less.prems[OF True] s rest by auto
    have rhs: "tmap U (step_member d n r) q s
                 = step_member d n r q (first_cp rest) w @ tmap U (step_member d n r) None rest"
      unfolding s by (rule tmap_token[OF w rest])
    have "re_sub_from U ?p (d # r) prev s = w @ re_sub_from U ?p (d # r) (Some (last w)) rest"
      unfolding s using re_sub_from_over_word[OF d w(2)] w(1) by simp
    then show ?thesis using ih q pd rhs by (auto simp add: step_member_def)
  next
    case False
    show ?thesis
    proof (cases s)
      case Nil
      then show ?thesis by (simp add: re_sub_from_Nil)
    next
      case (Cons c cs)
      then have c: "\<not> is_word U c" using False by simp
      have lcs: "length cs < length s" using Cons by simp
      show ?thesis
      proof (cases "c = d \<and> starts_word U cs")
        case True
        then have cd: "c = d" and sw: "starts_word U cs" by simp_all
        from sw obtain w rest where cs: "cs = w @ rest" and w: "w \<noteq> []" "wordy U w"
          and rest: "\<not> starts_word U rest" and len: "length rest < length cs"
          by (rule token_at_start)
        have m: "match_at U ?p prev s = (if w = n then Some (Some (last n), rest) else None)"
          unfolding Cons cd cs using match_name_boundary[OF n w rest] by simp
        show ?thesis
        proof (cases "w = n")
          case True
          have m': "match_at U ?p prev s = Some (Some (last n), rest)" using m True by simp
          have len': "length rest < length s" using len lcs by simp
          have ih: "re_sub_from U ?p (d # r) (Some (last n)) rest
                      = tmap U (step_member d n r) None rest"
            using less.hyps[OF len', where prev="Some (last n)" and q=None] rest by simp
          have rhs: "tmap U (step_member d n r) q s
                       = d # step_member d n r (Some d) (first_cp rest) w
                             @ tmap U (step_member d n r) None rest"
            unfolding Cons cd cs using d by (simp add: tmap_sep tmap_token[OF w rest])
          from re_sub_from_match[OF m' len'] show ?thesis
            using ih True rhs by (simp add: step_member_def)
        next
          case False
          have "match_at U ?p prev (c # cs) = None" using m False Cons by simp
          from re_sub_from_skip[OF this]
          have 1: "re_sub_from U ?p (d # r) prev s = d # re_sub_from U ?p (d # r) (Some d) cs"
            using Cons cd by simp
          have "\<not> (\<exists>rest'. cs = n @ rest' \<and> \<not> starts_word U rest')"
          proof
            assume "\<exists>rest'. cs = n @ rest' \<and> \<not> starts_word U rest'"
            then obtain rest' where "w @ rest = n @ rest'" "\<not> starts_word U rest'"
              using cs by auto
            then have "w = n" using token_unique[OF _ w(2) n(2) rest] by simp
            then show False using False by simp
          qed
          then have "re_sub_from U ?p (d # r) (Some d) cs = tmap U (step_member d n r) (Some d) cs"
            using less.hyps[OF lcs, where prev="Some d" and q="Some d"] by simp
          then show ?thesis using 1 d Cons cd by (simp add: tmap_sep)
        qed
      next
        case False
        have "match_at U ?p prev (c # cs) = None"
        proof (cases "c = d")
          case True
          then have "\<not> starts_word U cs" using False by simp
          then show ?thesis using True match_name_no_word[OF _ n, of cs "[WordB]" "Some d"] by simp
        next
          case False
          then show ?thesis by simp
        qed
        from re_sub_from_skip[OF this]
        have 1: "re_sub_from U ?p (d # r) prev s = c # re_sub_from U ?p (d # r) (Some c) cs"
          using Cons by simp
        have "re_sub_from U ?p (d # r) (Some c) cs = tmap U (step_member d n r) (Some c) cs"
        proof (rule less.hyps[OF lcs])
          assume "starts_word U cs"
          then have "c \<noteq> d" using False by simp
          then show "Some c = Some c \<and> (Some c = Some d \<longrightarrow>
                       \<not> (\<exists>rest. cs = n @ rest \<and> \<not> starts_word U rest))" by simp
        qed
        then show ?thesis using 1 c Cons by (simp add: tmap_sep)
      qed
    qed
  qed
qed

subsection \<open>The loops of \<^verbatim>\<open>fix_file\<close>\<close>

lemma apply_patterns_append:
  "apply_patterns U (rs1 @ rs2) st = apply_patterns U rs2 (apply_patterns U rs1 st)"
  by (induction U rs1 st rule: apply_patterns.induct) (simp_all add: Let_def)

lemma fix_content_all: "fix_content U content = apply_patterns U ALL_PATTERNS (content, 0)"
  by (simp add: fix_content_def ALL_PATTERNS_def apply_patterns_append)

lemma re_sub_changes_iff:
  "grows (p, r) \<Longrightarrow> re_sub U p r s \<noteq> s \<longleftrightarrow> re_findall U p s \<noteq> []"
  using re_sub_from_changes_iff[of p r U None s] by (simp add: grows_def re_sub_def re_findall_def)

lemma apply_patterns_spec:
  "list_all grows rules \<Longrightarrow>
   apply_patterns U rules (content, changes)
     = (sub_all U rules content, changes + count_matches U rules content)"
proof (induction rules arbitrary: content changes)
  case Nil
  then show ?case by simp
next
  case (Cons rl rules)
  obtain p r where rl: "rl = (p, r)" by (cases rl)
  have g: "grows (p, r)" and gs: "list_all grows rules" using Cons.prems rl by simp_all
  show ?case
  proof (cases "re_findall U p content = []")
    case True
    then have "re_sub U p r content = content" using re_sub_changes_iff[OF g] by blast
    then show ?thesis using True Cons.IH[OF gs] rl by simp
  next
    case False
    then have "re_sub U p r content \<noteq> content" using re_sub_changes_iff[OF g] by blast
    then show ?thesis using Cons.IH[OF gs] rl by (simp add: Let_def)
  qed
qed

lemma re_sub_grows_length:
  assumes "grows (p, r)"
  shows "length s + length (re_findall U p s) \<le> length (re_sub U p r s)"
proof -
  let ?k = "length (re_findall_from U p None s)"
  have "nlits p * ?k + ?k \<le> length r * ?k"
    using assms mult_le_mono1[of "Suc (nlits p)" "length r" ?k] by (simp add: grows_def)
  then show ?thesis using re_sub_from_length[of U p r None s]
    by (simp add: re_sub_def re_findall_def)
qed

lemma sub_all_length:
  "list_all grows rules \<Longrightarrow>
   length content + count_matches U rules content \<le> length (sub_all U rules content)"
proof (induction rules arbitrary: content)
  case Nil
  then show ?case by simp
next
  case (Cons rl rules)
  obtain p r where rl: "rl = (p, r)" by (cases rl)
  have g: "grows (p, r)" and gs: "list_all grows rules" using Cons.prems rl by simp_all
  show ?case using Cons.IH[OF gs, of "re_sub U p r content"] re_sub_grows_length[OF g, of content U] rl
    by simp
qed

lemma sub_all_unchanged:
  "count_matches U rules content = 0 \<Longrightarrow> sub_all U rules content = content"
proof (induction rules arbitrary: content)
  case Nil
  then show ?case by simp
next
  case (Cons rl rules)
  obtain p r where rl: "rl = (p, r)" by (cases rl)
  have "re_findall U p content = []" using Cons.prems rl by simp
  then have "re_sub U p r content = content"
    using re_sub_from_no_match[of U p None content r] by (simp add: re_sub_def re_findall_def)
  then show ?case using Cons rl by simp
qed

lemma sub_all_changes_iff:
  assumes "list_all grows rules"
  shows "sub_all U rules content \<noteq> content \<longleftrightarrow> count_matches U rules content \<noteq> 0"
proof
  assume "sub_all U rules content \<noteq> content"
  then show "count_matches U rules content \<noteq> 0" using sub_all_unchanged by blast
next
  assume "count_matches U rules content \<noteq> 0"
  then have "length content < length (sub_all U rules content)"
    using sub_all_length[OF assms, of content U] by simp
  then show "sub_all U rules content \<noteq> content" by auto
qed

lemma nlits_lits [simp]: "nlits (map Lit n @ as) = length n + nlits as"
  by (induction n) simp_all

lemma all_grow: "list_all grows ALL_PATTERNS"
  by (simp add: ALL_PATTERNS_def PROPERTY_PATTERNS_def OBJECT_PATTERNS_def VARIABLE_PATTERNS_def
      grows_def member_access_def object_key_def bare_def lits_def cps_def)

lemma fix_content_spec:
  "fix_content U content = (sub_all U ALL_PATTERNS content, count_matches U ALL_PATTERNS content)"
  by (simp add: fix_content_all apply_patterns_spec[OF all_grow])

subsection \<open>The rules of the program, word by word\<close>

lemma rules_of_token_rules: "map rule_of token_rules = ALL_PATTERNS"
  by (simp add: token_rules_def member_names_def key_names_def bare_names_def ALL_PATTERNS_def
      PROPERTY_PATTERNS_def OBJECT_PATTERNS_def VARIABLE_PATTERNS_def
      member_access_def object_key_def bare_def lits_def cps_def)

lemma token_rules_sound: "list_all sound token_rules"
  by (simp add: token_rules_def member_names_def key_names_def bare_names_def
      sound_def camel_def snake_def cps_def ascii_word_def)

lemma ascii_wordy: "list_all ascii_word w \<Longrightarrow> wordy U w"
  by (induction w) (auto simp: is_word_def ascii_word_def)

lemma sep_chars: "\<not> is_word U 46" "\<not> is_word U 58"
  by (simp_all add: is_word_def ascii_word_def)

lemma step_cases: "step t p nx w = w \<or> (w = fst (snd t) \<and> step t p nx w = snd (snd t))"
  by (cases t rule: step.cases) (auto simp: step_member_def step_key_def step_bare_def)

lemma step_keeps_words: "sound t \<Longrightarrow> keeps_words U (step t)"
  unfolding keeps_words_def
proof (intro allI impI)
  fix p n w
  assume s: "sound t" and w: "w \<noteq> [] \<and> wordy U w"
  have "snd (snd t) \<noteq> []" "wordy U (snd (snd t))"
    using s ascii_wordy by (auto simp: sound_def snake_def)
  then show "step t p n w \<noteq> [] \<and> wordy U (step t p n w)"
    using w step_cases[of t p n w] by auto
qed

lemma re_sub_step:
  assumes "sound t"
  shows "re_sub U (fst (rule_of t)) (snd (rule_of t)) s = tmap U (step t) None s"
proof -
  obtain k n r where t: "t = (k, n, r)" by (cases t)
  have n: "n \<noteq> []" "wordy U n" using assms t ascii_wordy by (auto simp: sound_def camel_def)
  show ?thesis
  proof (cases k)
    case Member
    then show ?thesis using member_tmap[OF n sep_chars(1), of s None None r] t
      by (simp add: re_sub_def)
  next
    case Key
    then show ?thesis using key_tmap[OF n sep_chars(2), of None s r None] t
      by (simp add: re_sub_def)
  next
    case Bare
    then show ?thesis using bare_tmap[OF n, of None s r None] t
      by (simp add: re_sub_def)
  qed
qed

lemma tmap_id: "tmap U (\<lambda>p n w. w) prev s = s"
proof (induction "length s" arbitrary: s prev rule: less_induct)
  case less
  show ?case
  proof (cases "starts_word U s")
    case True
    then obtain w rest where s: "s = w @ rest" and w: "w \<noteq> []" "wordy U w"
      and rest: "\<not> starts_word U rest" and len: "length rest < length s"
      by (rule token_at_start)
    show ?thesis unfolding s using less[OF len] by (simp add: tmap_token[OF w rest])
  next
    case False
    show ?thesis
    proof (cases s)
      case Nil
      then show ?thesis by simp
    next
      case (Cons c cs)
      then have c: "\<not> is_word U c" using False by simp
      have "length cs < length s" using Cons by simp
      from less[OF this] show ?thesis using c Cons by (simp add: tmap_sep)
    qed
  qed
qed

lemma sub_all_tmap:
  "list_all sound ts \<Longrightarrow> sub_all U (map rule_of ts) s = tmap U (steps ts) None s"
proof (induction ts arbitrary: s)
  case Nil
  have "steps [] = (\<lambda>p n w. w)" by (intro ext) simp
  then show ?case by (simp add: tmap_id)
next
  case (Cons t ts)
  have t: "sound t" and ts: "list_all sound ts" using Cons.prems by simp_all
  have st: "steps (t # ts) = (\<lambda>p n w. steps ts p n (step t p n w))" by (intro ext) simp
  have "sub_all U (map rule_of (t # ts)) s
          = sub_all U (map rule_of ts) (re_sub U (fst (rule_of t)) (snd (rule_of t)) s)"
    by (cases "rule_of t") simp
  also have "\<dots> = tmap U (steps ts) None (tmap U (step t) None s)"
    using Cons.IH[OF ts] re_sub_step[OF t] by simp
  also have "\<dots> = tmap U (steps (t # ts)) None s"
    unfolding st using tmap_compose[OF step_keeps_words[OF t]] by simp
  finally show ?case .
qed

lemma steps_keeps_words: "list_all sound ts \<Longrightarrow> keeps_words U (steps ts)"
proof (induction ts)
  case Nil
  then show ?case by (simp add: keeps_words_def)
next
  case (Cons t ts)
  then have "keeps_words U (step t)" "keeps_words U (steps ts)"
    using step_keeps_words by simp_all
  then show ?case by (simp add: keeps_words_def)
qed

lemma steps_not_name:
  "\<forall>t\<in>set ts. fst (snd t) \<noteq> w \<Longrightarrow> steps ts p nx w = w"
proof (induction ts)
  case Nil
  then show ?case by simp
next
  case (Cons t ts)
  then have "step t p nx w = w" using step_cases[of t p nx w] by auto
  then show ?case using Cons by simp
qed

lemma snake_not_name: "list_all sound ts \<Longrightarrow> snake r \<Longrightarrow> \<forall>t\<in>set ts. fst (snd t) \<noteq> r"
  by (auto simp: list_all_iff sound_def camel_def snake_def)

lemma steps_result:
  "list_all sound ts \<Longrightarrow> steps ts p nx w = w \<or> snake (steps ts p nx w)"
proof (induction ts arbitrary: w)
  case Nil
  then show ?case by simp
next
  case (Cons t ts)
  have t: "sound t" and ts: "list_all sound ts" using Cons.prems by simp_all
  consider "step t p nx w = w" | "step t p nx w = snd (snd t)"
    using step_cases[of t p nx w] by auto
  then show ?case
  proof cases
    case 1
    then show ?thesis using Cons.IH[OF ts, of w] by simp
  next
    case 2
    have sn: "snake (snd (snd t))" using t by (simp add: sound_def)
    have "steps ts p nx (snd (snd t)) = snd (snd t)"
      using steps_not_name[OF snake_not_name[OF ts sn]] by simp
    then show ?thesis using 2 sn by simp
  qed
qed

lemma steps_idem:
  assumes "list_all sound ts"
  shows "steps ts p nx (steps ts p nx w) = steps ts p nx w"
  using steps_result[OF assms, of p nx w] steps_not_name[OF snake_not_name[OF assms]]
  by auto

lemma sub_all_idem:
  assumes "list_all sound ts"
  shows "sub_all U (map rule_of ts) (sub_all U (map rule_of ts) s) = sub_all U (map rule_of ts) s"
proof -
  have "tmap U (steps ts) None (tmap U (steps ts) None s)
          = tmap U (\<lambda>p n w. steps ts p n (steps ts p n w)) None s"
    using tmap_compose[OF steps_keeps_words[OF assms]] by simp
  also have "\<dots> = tmap U (steps ts) None s"
    by (rule tmap_cong) (simp add: steps_idem[OF assms])
  finally show ?thesis by (simp add: sub_all_tmap[OF assms])
qed

subsection \<open>The rewrite, word by word\<close>

lemma fix_content_tmap: "fst (fix_content U content) = tmap U (steps token_rules) None content"
  using sub_all_tmap[OF token_rules_sound, of U content]
  by (simp add: fix_content_spec rules_of_token_rules)

lemma tmap_after_sep:
  "a = [] \<or> \<not> is_word U (last a) \<Longrightarrow>
   tmap U f prev (a @ s) = tmap U f prev a @ tmap U f (if a = [] then prev else Some (last a)) s"
proof (induction "length a" arbitrary: a prev rule: less_induct)
  case less
  show ?case
  proof (cases "starts_word U a")
    case True
    then obtain w rest where a: "a = w @ rest" and w: "w \<noteq> []" "wordy U w"
      and rest: "\<not> starts_word U rest" and len: "length rest < length a"
      by (rule token_at_start)
    have "is_word U (last w)" using w by (auto simp: wordy_def list_all_iff)
    then have r: "rest \<noteq> []" using less.prems a w by auto
    then have la: "last a = last rest" using a by simp
    have nr: "\<not> is_word U (last rest)" using less.prems a r by auto
    have st: "\<not> starts_word U (rest @ s)" "first_cp (rest @ s) = first_cp rest"
      using rest r by (cases rest; simp)+
    have ih: "tmap U f None (rest @ s) = tmap U f None rest @ tmap U f (Some (last rest)) s"
      using less.hyps[OF len, of None] nr r by simp
    have "tmap U f prev (a @ s) = f prev (first_cp rest) w @ tmap U f None (rest @ s)"
      unfolding a using tmap_token[OF w st(1), of f prev] st(2) by simp
    moreover have "tmap U f prev a = f prev (first_cp rest) w @ tmap U f None rest"
      unfolding a by (rule tmap_token[OF w rest])
    ultimately show ?thesis using ih la a w by simp
  next
    case False
    show ?thesis
    proof (cases a)
      case Nil
      then show ?thesis by simp
    next
      case (Cons c cs)
      then have c: "\<not> is_word U c" using False by simp
      have len: "length cs < length a" using Cons by simp
      show ?thesis
      proof (cases "cs = []")
        case True
        then show ?thesis using c Cons by (simp add: tmap_sep)
      next
        case False
        then have "\<not> is_word U (last cs)" using less.prems Cons by simp
        then show ?thesis using less.hyps[OF len, of "Some c"] False c Cons
          by (simp add: tmap_sep)
      qed
    qed
  qed
qed

lemma tmap_word_then:
  assumes "w \<noteq> []" "wordy U w"
  shows "tmap U f prev (w @ b)
           = f prev (first_cp (dropWhile (is_word U) b)) (w @ takeWhile (is_word U) b)
             @ tmap U f None (dropWhile (is_word U) b)"
proof -
  let ?w = "w @ takeWhile (is_word U) b" and ?rest = "dropWhile (is_word U) b"
  have 1: "?w \<noteq> []" using assms by simp
  have 2: "wordy U ?w" using assms by (auto simp: wordy_def list_all_iff dest: set_takeWhileD)
  have 3: "\<not> starts_word U ?rest" by (induction b) auto
  show ?thesis using tmap_token[OF 1 2 3, of f prev] by simp
qed

lemma names_no_digit: "list_all (\<lambda>t. 50 \<notin> set (fst (snd t))) token_rules"
  by (simp add: token_rules_def member_names_def key_names_def bare_names_def cps_def)

lemma steps_with_digit: "50 \<in> set w \<Longrightarrow> steps token_rules p nx w = w"
  using names_no_digit by (intro steps_not_name) (auto simp: list_all_iff)

lemma steps_orderId: "steps token_rules (Some 46) nx (cps ''orderId'') = cps ''order_id''"
  by (simp add: token_rules_def member_names_def key_names_def bare_names_def cps_def
      step_member_def step_key_def step_bare_def)

lemma steps_routingStepId: "steps token_rules p nx (cps ''routingStepId'') = cps ''routing_step_id''"
  by (simp add: token_rules_def member_names_def key_names_def bare_names_def cps_def
      step_member_def step_key_def step_bare_def)

lemma steps_routeTemplateId: "steps token_rules p nx (cps ''routeTemplateId'') = cps ''route_template_id''"
  by (simp add: token_rules_def member_names_def key_names_def bare_names_def cps_def
      step_member_def step_key_def step_bare_def)

subsection \<open>Texts without a match, and the file\<close>

lemma no_match_anywhere:
  "\<forall>rl\<in>set rules. re_findall U (fst rl) content = [] \<Longrightarrow>
   count_matches U rules content = 0 \<and> sub_all U rules content = content"
proof (induction rules)
  case Nil
  then show ?case by simp
next
  case (Cons rl rules)
  obtain p r where rl: "rl = (p, r)" by (cases rl)
  have "re_findall U p content = []" using Cons.prems rl by simp
  then have "re_sub U p r content = content"
    using re_sub_from_no_match[of U p None content r] by (simp add: re_sub_def re_findall_def)
  then show ?case using Cons rl by simp
qed

lemma fix_file_unchanged:
  "disk w file_path = Inr content \<Longrightarrow> fst (fix_content U content) = content \<Longrightarrow>
   fix_file U w file_path = (w, snd (fix_content U content))"
  by (cases "fix_content U content") (simp add: fix_file_def fix_file_body_def)

subsection \<open>The two loops of the driver\<close>

lemma endswith_suffix: "endswith s suf = suffix suf s"
proof
  assume "endswith s suf"
  then have "s = take (length s - length suf) s @ suf"
    using append_take_drop_id[of "length s - length suf" s] by (simp add: endswith_def)
  then show "suffix suf s" unfolding suffix_def by blast
next
  assume "suffix suf s"
  then obtain zs where "s = zs @ suf" unfolding suffix_def by blast
  then show "endswith s suf" by (simp add: endswith_def)
qed

lemma is_ts_file_ts_name: "is_ts_file name = ts_name name"
  by (simp add: is_ts_file_def ts_name_def endswith_suffix)

lemma process_files_fold:
  "process_files U root files st
     = fold (process_one U) (map (path_join root) (filter ts_name files)) st"
proof (induction files arbitrary: st)
  case Nil
  then show ?case by simp
next
  case (Cons name names)
  obtain w t c where st: "st = (w, t, c)" by (cases st)
  show ?case
  proof (cases "is_ts_file name")
    case True
    obtain w' n where f: "fix_file U w (path_join root name) = (w', n)"
      by (cases "fix_file U w (path_join root name)")
    have "ts_name name" using True by (simp add: is_ts_file_ts_name)
    then show ?thesis using True f st Cons.IH by (simp add: process_one_def)
  next
    case False
    then have "\<not> ts_name name" by (simp add: is_ts_file_ts_name)
    then show ?thesis using False st Cons.IH by simp
  qed
qed

lemma walk_loop_fold: "walk_loop U walk st = fold (process_one U) (candidates walk) st"
proof (induction walk arbitrary: st)
  case Nil
  then show ?case by (simp add: candidates_def)
next
  case (Cons a walk)
  obtain root dirs files where a: "a = (root, dirs, files)" by (cases a)
  have "candidates (a # walk) = map (path_join root) (filter ts_name files) @ candidates walk"
    using a by (simp add: candidates_def)
  then show ?case using Cons.IH a by (simp add: process_files_fold)
qed

subsection \<open>Unfolding for the evaluation of concrete inputs\<close>

lemmas table_defs = PROPERTY_PATTERNS_def OBJECT_PATTERNS_def VARIABLE_PATTERNS_def
      member_access_def object_key_def bare_def lits_def cps_def

lemmas scan_defs = re_sub_def re_findall_def
      re_sub_from.simps re_findall_from.simps is_word_def ascii_word_def Let_def

section \<open>The claims\<close>

text \<open>
  C1. The full rewrite is idempotent: for every text, the three groups of substitutions
  applied to their own output give that output again, and the change count of the second
  application is 0.
\<close>

theorem rewrite_idempotent:
  "fix_content U (fst (fix_content U content)) = (fst (fix_content U content), 0)"
proof -
  let ?t = "sub_all U ALL_PATTERNS content"
  have idem: "sub_all U ALL_PATTERNS ?t = ?t"
    using sub_all_idem[OF token_rules_sound] by (simp add: rules_of_token_rules)
  then have "count_matches U ALL_PATTERNS ?t = 0"
    using sub_all_changes_iff[OF all_grow, of U ?t] by simp
  then show ?thesis using idem by (simp add: fix_content_spec)
qed

text \<open>
  C2. The change count of \<^verbatim>\<open>fix_file\<close> is the number of matches replaced, summed over
  every rule of the three groups in their order, the matches of a rule being counted on
  the text as the earlier rules left it: the loops of the program compute the text and
  the count of the specification's description, and \<^verbatim>\<open>fix_file\<close> returns that count
  whenever its \<^verbatim>\<open>try\<close> body raises nothing.
\<close>

theorem change_count_is_match_total:
  "fix_content U content = (sub_all U ALL_PATTERNS content, count_matches U ALL_PATTERNS content)
   \<and> (disk w file_path = Inr content \<and> fix_file_body U w file_path = Inr (w', n) \<longrightarrow>
        fix_file U w file_path = (w', count_matches U ALL_PATTERNS content))"
  by (auto simp add: fix_content_spec fix_file_def fix_file_body_def
      split: if_splits option.splits write_failure.splits)

theorem change_count_is_match_total_witness:
  "fix_file (\<lambda>_. False)
     \<lparr>disk = (\<lambda>_. Inr (cps ''userId'')), write_error = (\<lambda>_. None), writes = [], stdout = []\<rparr>
     (cps ''src/a.ts'')
   = (\<lparr>disk = (\<lambda>_. Inr (cps ''userId''))(cps ''src/a.ts'' := Inr (cps ''user_id'')),
       write_error = (\<lambda>_. None), writes = [(cps ''src/a.ts'', cps ''user_id'')], stdout = []\<rparr>,
      1)
   \<and> count_matches (\<lambda>_. False) ALL_PATTERNS (cps ''userId'') = 1"
proof -
  let ?w = "\<lparr>disk = (\<lambda>_. Inr (cps ''userId'')), write_error = (\<lambda>_. None), writes = [],
             stdout = []\<rparr>"
  let ?w' = "\<lparr>disk = (\<lambda>_. Inr (cps ''userId''))(cps ''src/a.ts'' := Inr (cps ''user_id'')),
       write_error = (\<lambda>_. None), writes = [(cps ''src/a.ts'', cps ''user_id'')], stdout = []\<rparr>"
  have e: "fix_content (\<lambda>_. False) (cps ''userId'') = (cps ''user_id'', 1)"
    by (simp add: fix_content_def table_defs scan_defs)
  have ne: "cps ''user_id'' \<noteq> cps ''userId''" by (simp add: cps_def)
  have b: "fix_file_body (\<lambda>_. False) ?w (cps ''src/a.ts'') = Inr (?w', 1)"
    using e ne by (simp add: fix_file_body_def)
  note c2 = change_count_is_match_total
    [where U="\<lambda>_. False" and content="cps ''userId''" and w="?w"
       and file_path="cps ''src/a.ts''" and w'="?w'" and n=1]
  have cm: "count_matches (\<lambda>_. False) ALL_PATTERNS (cps ''userId'') = 1"
    using c2 e by simp
  have "fix_file (\<lambda>_. False) ?w (cps ''src/a.ts'')
          = (?w', count_matches (\<lambda>_. False) ALL_PATTERNS (cps ''userId''))"
    using c2 b by simp
  then show ?thesis using cm by simp
qed

text \<open>
  C3. Word boundary: an occurrence of \<^verbatim>\<open>.orderId2\<close> is left as it is by the full
  rewrite, wherever it stands (the text before it is rewritten as it is when the dot
  ends the text, the text from the \<^verbatim>\<open>2\<close> on as it is when it begins the text), while an
  occurrence of \<^verbatim>\<open>.orderId\<close> followed by a non-word character is rewritten to
  \<^verbatim>\<open>.order_id\<close>.
\<close>

theorem word_boundary_respected:
  "fst (fix_content U (a @ cps ''.orderId2'' @ b))
     = fst (fix_content U (a @ cps ''.'')) @ cps ''orderId'' @ fst (fix_content U (cps ''2'' @ b))
   \<and> (\<not> is_word U c \<longrightarrow>
        fst (fix_content U (a @ cps ''.orderId'' @ c # b))
          = fst (fix_content U (a @ cps ''.'')) @ cps ''order_id'' @ fst (fix_content U (c # b)))"
proof
  let ?F = "steps token_rules"
  have dot: "a @ [46] = [] \<or> \<not> is_word U (last (a @ [46]))" using sep_chars(1) by simp
  have split: "tmap U ?F None ((a @ [46]) @ s) = tmap U ?F None (a @ [46]) @ tmap U ?F (Some 46) s"
    for s
    using tmap_after_sep[OF dot, of ?F None s] by simp
  let ?wb = "takeWhile (is_word U) b" and ?rest = "dropWhile (is_word U) b"
  have w1: "cps ''orderId2'' \<noteq> []" "wordy U (cps ''orderId2'')"
    by (simp_all add: cps_def is_word_def ascii_word_def)
  have w2: "cps ''2'' \<noteq> []" "wordy U (cps ''2'')"
    by (simp_all add: cps_def is_word_def ascii_word_def)
  have t1: "tmap U ?F (Some 46) (cps ''orderId2'' @ b)
              = (cps ''orderId2'' @ ?wb) @ tmap U ?F None ?rest"
    using tmap_word_then[OF w1, of ?F "Some 46" b]
      steps_with_digit[of "cps ''orderId2'' @ ?wb"] by (simp add: cps_def)
  have t2: "tmap U ?F None (cps ''2'' @ b) = (cps ''2'' @ ?wb) @ tmap U ?F None ?rest"
    using tmap_word_then[OF w2, of ?F None b]
      steps_with_digit[of "cps ''2'' @ ?wb"] by (simp add: cps_def)
  have "tmap U ?F None (a @ cps ''.orderId2'' @ b)
          = tmap U ?F None (a @ cps ''.'') @ tmap U ?F (Some 46) (cps ''orderId2'' @ b)"
    using split[of "cps ''orderId2'' @ b"] by (simp add: cps_def)
  also have "\<dots> = tmap U ?F None (a @ cps ''.'') @ cps ''orderId'' @ tmap U ?F None (cps ''2'' @ b)"
    unfolding t1 t2 by (simp add: cps_def)
  finally show "fst (fix_content U (a @ cps ''.orderId2'' @ b))
     = fst (fix_content U (a @ cps ''.'')) @ cps ''orderId'' @ fst (fix_content U (cps ''2'' @ b))"
    by (simp add: fix_content_tmap)
  show "\<not> is_word U c \<longrightarrow>
        fst (fix_content U (a @ cps ''.orderId'' @ c # b))
          = fst (fix_content U (a @ cps ''.'')) @ cps ''order_id'' @ fst (fix_content U (c # b))"
  proof
    assume c: "\<not> is_word U c"
    have w3: "cps ''orderId'' \<noteq> []" "wordy U (cps ''orderId'')"
      by (simp_all add: cps_def is_word_def ascii_word_def)
    have nc: "\<not> starts_word U (c # b)" using c by simp
    have "tmap U ?F (Some 46) (cps ''orderId'' @ c # b)
            = cps ''order_id'' @ tmap U ?F None (c # b)"
      using tmap_token[OF w3 nc, of ?F "Some 46"] steps_orderId[of "Some c"] by simp
    moreover have "tmap U ?F None (a @ cps ''.orderId'' @ c # b)
          = tmap U ?F None (a @ cps ''.'') @ tmap U ?F (Some 46) (cps ''orderId'' @ c # b)"
      using split[of "cps ''orderId'' @ c # b"] by (simp add: cps_def)
    ultimately show "fst (fix_content U (a @ cps ''.orderId'' @ c # b))
          = fst (fix_content U (a @ cps ''.'')) @ cps ''order_id'' @ fst (fix_content U (c # b))"
      by (simp add: fix_content_tmap)
  qed
qed

theorem word_boundary_respected_witness:
  "\<not> is_word (\<lambda>_. False) 59
   \<and> fst (fix_content (\<lambda>_. False) (cps ''x.orderId2'')) = cps ''x.orderId2''
   \<and> fst (fix_content (\<lambda>_. False) (cps ''x.orderId;'')) = cps ''x.order_id;''"
proof -
  have h: "\<not> is_word (\<lambda>_. False) 59" by (simp add: is_word_def ascii_word_def)
  have e1: "fix_content (\<lambda>_. False) (cps ''x.'') = (cps ''x.'', 0)"
    by (simp add: fix_content_def table_defs scan_defs)
  have e2: "fix_content (\<lambda>_. False) (cps ''2'') = (cps ''2'', 0)"
    by (simp add: fix_content_def table_defs scan_defs)
  have e3: "fix_content (\<lambda>_. False) [59] = ([59], 0)"
    by (simp add: fix_content_def table_defs scan_defs)
  note wb = word_boundary_respected[where U="\<lambda>_. False" and a="cps ''x''" and b="[]" and c=59]
  have 1: "fst (fix_content (\<lambda>_. False) (cps ''x'' @ cps ''.orderId2'' @ []))
             = cps ''x.'' @ cps ''orderId'' @ cps ''2''"
    using wb e1 e2 by (simp add: cps_def)
  have 2: "fst (fix_content (\<lambda>_. False) (cps ''x'' @ cps ''.orderId'' @ [59]))
             = cps ''x.'' @ cps ''order_id'' @ [59]"
    using wb h e1 e3 by (simp add: cps_def)
  show ?thesis using h 1 2 by (simp add: cps_def)
qed

text \<open>
  C4. No rule matches inside a longer name: where the bare identifiers
  \<^verbatim>\<open>routingStepId\<close> and \<^verbatim>\<open>routeTemplateId\<close> stand next to each other, separated by a
  non-word character and not inside longer words, they become \<^verbatim>\<open>routing_step_id\<close> and
  \<^verbatim>\<open>route_template_id\<close>, and the text around them is rewritten as it is on its own. On
  the two names with a blank between them the change count is 2.
\<close>

theorem adjacent_long_names:
  "((a = [] \<or> \<not> is_word U (last a)) \<and> \<not> is_word U c \<and> (b = [] \<or> \<not> is_word U (hd b)) \<longrightarrow>
      fst (fix_content U (a @ cps ''routingStepId'' @ c # cps ''routeTemplateId'' @ b))
        = fst (fix_content U a) @ cps ''routing_step_id'' @ c # cps ''route_template_id''
          @ fst (fix_content U b))
   \<and> fix_content U (cps ''routingStepId routeTemplateId'')
        = (cps ''routing_step_id route_template_id'', 2)"
proof (intro conjI impI)
  assume h: "(a = [] \<or> \<not> is_word U (last a)) \<and> \<not> is_word U c \<and> (b = [] \<or> \<not> is_word U (hd b))"
  let ?F = "steps token_rules"
  let ?p = "if a = [] then None else Some (last a)"
  have ha: "a = [] \<or> \<not> is_word U (last a)" and hc: "\<not> is_word U c" using h by simp_all
  have w1: "cps ''routingStepId'' \<noteq> []" "wordy U (cps ''routingStepId'')"
    by (simp_all add: cps_def is_word_def ascii_word_def)
  have w2: "cps ''routeTemplateId'' \<noteq> []" "wordy U (cps ''routeTemplateId'')"
    by (simp_all add: cps_def is_word_def ascii_word_def)
  have nb: "\<not> starts_word U b" using h by (cases b) auto
  have nc: "\<not> starts_word U (c # cps ''routeTemplateId'' @ b)" using hc by simp
  have "tmap U ?F None (a @ cps ''routingStepId'' @ c # cps ''routeTemplateId'' @ b)
          = tmap U ?F None a
            @ tmap U ?F ?p (cps ''routingStepId'' @ c # cps ''routeTemplateId'' @ b)"
    using tmap_after_sep[OF ha, of ?F None] by simp
  also have "tmap U ?F ?p (cps ''routingStepId'' @ c # cps ''routeTemplateId'' @ b)
          = cps ''routing_step_id'' @ tmap U ?F None (c # cps ''routeTemplateId'' @ b)"
    using tmap_token[OF w1 nc, of ?F ?p] steps_routingStepId by simp
  also have "tmap U ?F None (c # cps ''routeTemplateId'' @ b)
          = c # tmap U ?F (Some c) (cps ''routeTemplateId'' @ b)"
    using hc by (simp add: tmap_sep)
  also have "tmap U ?F (Some c) (cps ''routeTemplateId'' @ b)
          = cps ''route_template_id'' @ tmap U ?F None b"
    using tmap_token[OF w2 nb, of ?F "Some c"] steps_routeTemplateId by simp
  finally show "fst (fix_content U (a @ cps ''routingStepId'' @ c # cps ''routeTemplateId'' @ b))
        = fst (fix_content U a) @ cps ''routing_step_id'' @ c # cps ''route_template_id''
          @ fst (fix_content U b)"
    by (simp add: fix_content_tmap)
next
  show "fix_content U (cps ''routingStepId routeTemplateId'')
          = (cps ''routing_step_id route_template_id'', 2)"
    by (simp add: fix_content_def table_defs scan_defs)
qed

theorem adjacent_long_names_witness:
  "\<not> is_word (\<lambda>_. False) (last (cps ''f('')) \<and> \<not> is_word (\<lambda>_. False) 44
   \<and> \<not> is_word (\<lambda>_. False) (hd (cps '')''))
   \<and> fst (fix_content (\<lambda>_. False) (cps ''f(routingStepId,routeTemplateId)''))
       = cps ''f(routing_step_id,route_template_id)''"
proof -
  have h: "\<not> is_word (\<lambda>_. False) (last (cps ''f(''))" "\<not> is_word (\<lambda>_. False) 44"
    "\<not> is_word (\<lambda>_. False) (hd (cps '')''))"
    by (simp_all add: is_word_def ascii_word_def cps_def)
  have e1: "fix_content (\<lambda>_. False) (cps ''f('') = (cps ''f('', 0)"
    by (simp add: fix_content_def table_defs scan_defs)
  have e2: "fix_content (\<lambda>_. False) (cps '')'') = (cps '')'', 0)"
    by (simp add: fix_content_def table_defs scan_defs)
  have "fst (fix_content (\<lambda>_. False)
               (cps ''f('' @ cps ''routingStepId'' @ 44 # cps ''routeTemplateId'' @ cps '')''))
          = cps ''f('' @ cps ''routing_step_id'' @ 44 # cps ''route_template_id'' @ cps '')''"
    using adjacent_long_names[where a="cps ''f(''" and U="\<lambda>_. False" and c=44 and b="cps '')''"]
      h e1 e2
    by simp
  then show ?thesis using h by (simp add: cps_def)
qed

text \<open>
  C5. On the input \<^verbatim>\<open>const userId = order.orderId;\<close> the rewrite gives
  \<^verbatim>\<open>const user_id = order.order_id;\<close> and the change count 2.
\<close>

theorem scenario_member_and_bare:
  "fix_content U (cps ''const userId = order.orderId;'')
     = (cps ''const user_id = order.order_id;'', 2)"
  by (simp add: fix_content_def table_defs scan_defs)

text \<open>
  C6. On the input \<^verbatim>\<open>{ isActive: true, standardSpec: x }\<close> the rewrite gives
  \<^verbatim>\<open>{ is_active: true, standard_spec: x }\<close> and the change count 2.
\<close>

theorem scenario_object_keys:
  "fix_content U (cps ''{ isActive: true, standardSpec: x }'')
     = (cps ''{ is_active: true, standard_spec: x }'', 2)"
  by (simp add: fix_content_def table_defs scan_defs)

text \<open>
  C7. No-op stability: a text in which no pattern of any rule matches is returned as it
  is with the change count 0, and \<^verbatim>\<open>fix_file\<close> leaves the file system and the output as
  they were; more generally, whenever the rewritten text equals the text read, nothing
  is written.
\<close>

theorem no_op_stability:
  "(disk w file_path = Inr content \<and>
      (\<forall>rl\<in>set ALL_PATTERNS. re_findall U (fst rl) content = []) \<longrightarrow>
        fix_content U content = (content, 0) \<and> fix_file U w file_path = (w, 0))
   \<and> (disk w file_path = Inr content \<and> fst (fix_content U content) = content \<longrightarrow>
        fst (fix_file U w file_path) = w)"
proof (intro conjI impI)
  assume a: "disk w file_path = Inr content \<and>
      (\<forall>rl\<in>set ALL_PATTERNS. re_findall U (fst rl) content = [])"
  then show fc: "fix_content U content = (content, 0)"
    using no_match_anywhere[of ALL_PATTERNS U content] by (simp add: fix_content_spec)
  then show "fix_file U w file_path = (w, 0)"
    using a fix_file_unchanged[of w file_path content U] by simp
next
  assume "disk w file_path = Inr content \<and> fst (fix_content U content) = content"
  then show "fst (fix_file U w file_path) = w"
    using fix_file_unchanged[of w file_path content U] by simp
qed

theorem no_op_stability_witness:
  "fix_content (\<lambda>_. False) (cps ''const x = 1;'') = (cps ''const x = 1;'', 0)
   \<and> fix_file (\<lambda>_. False)
        \<lparr>disk = (\<lambda>_. Inr (cps ''const x = 1;'')), write_error = (\<lambda>_. None), writes = [],
         stdout = []\<rparr> (cps ''src/a.ts'')
       = (\<lparr>disk = (\<lambda>_. Inr (cps ''const x = 1;'')), write_error = (\<lambda>_. None), writes = [],
           stdout = []\<rparr>, 0)"
proof -
  let ?w = "\<lparr>disk = (\<lambda>_. Inr (cps ''const x = 1;'')), write_error = (\<lambda>_. None), writes = [],
             stdout = []\<rparr>"
  have quiet: "\<forall>rl\<in>set ALL_PATTERNS. re_findall (\<lambda>_. False) (fst rl) (cps ''const x = 1;'') = []"
    by (simp add: ALL_PATTERNS_def table_defs scan_defs)
  have d: "disk ?w (cps ''src/a.ts'') = Inr (cps ''const x = 1;'')" by simp
  show ?thesis
    using no_op_stability[where w="?w" and file_path="cps ''src/a.ts''"
        and content="cps ''const x = 1;''" and U="\<lambda>_. False"] quiet d
    by blast
qed

text \<open>
  C8. Failures are isolated per file: when reading or decoding the file raises, or the
  text changed and writing it raises (at \<^verbatim>\<open>open\<close>, or later with the file already
  truncated), \<^verbatim>\<open>fix_file\<close> prints the path with the error and returns 0; whatever the
  \<^verbatim>\<open>try\<close> body raises, the loop of the driver goes on with the next file and the
  counters as they were.
\<close>

theorem failure_isolated_per_file:
  "(disk w file_path = Inl e \<longrightarrow>
      fix_file U w file_path = (w\<lparr>stdout := stdout w @ [Error_processing file_path e]\<rparr>, 0))
   \<and> (disk w file_path = Inr content \<and> fst (fix_content U content) \<noteq> content
        \<and> write_error w file_path = Some (Open_raises e) \<longrightarrow>
      fix_file U w file_path = (w\<lparr>stdout := stdout w @ [Error_processing file_path e]\<rparr>, 0))
   \<and> (disk w file_path = Inr content \<and> fst (fix_content U content) \<noteq> content
        \<and> write_error w file_path = Some (Write_raises e left) \<longrightarrow>
      fix_file U w file_path
        = (w\<lparr>disk := (disk w)(file_path := left),
              stdout := stdout w @ [Error_processing file_path e]\<rparr>, 0))
   \<and> (is_ts_file name \<and> fix_file_body U w (path_join root name) = Inl (e, w1) \<longrightarrow>
      process_files U root (name # files) (w, total_changes, files_changed)
        = process_files U root files
            (w1\<lparr>stdout := stdout w1 @ [Error_processing (path_join root name) e]\<rparr>,
             total_changes, files_changed))"
  by (cases "fix_content U content")
     (auto simp add: fix_file_def fix_file_body_def)

theorem failure_isolated_per_file_witness:
  "fix_file (\<lambda>_. False)
     \<lparr>disk = (\<lambda>_. Inl (cps ''denied'')), write_error = (\<lambda>_. None), writes = [], stdout = []\<rparr>
     (cps ''src/a.ts'')
   = (\<lparr>disk = (\<lambda>_. Inl (cps ''denied'')), write_error = (\<lambda>_. None), writes = [],
       stdout = [Error_processing (cps ''src/a.ts'') (cps ''denied'')]\<rparr>, 0)
   \<and> fix_file (\<lambda>_. False)
       \<lparr>disk = (\<lambda>_. Inr (cps ''userId'')),
        write_error = (\<lambda>_. Some (Open_raises (cps ''read-only''))),
        writes = [], stdout = []\<rparr>
       (cps ''src/a.ts'')
     = (\<lparr>disk = (\<lambda>_. Inr (cps ''userId'')),
         write_error = (\<lambda>_. Some (Open_raises (cps ''read-only''))),
         writes = [], stdout = [Error_processing (cps ''src/a.ts'') (cps ''read-only'')]\<rparr>, 0)
   \<and> fix_file (\<lambda>_. False)
       \<lparr>disk = (\<lambda>_. Inr (cps ''userId'')),
        write_error = (\<lambda>_. Some (Write_raises (cps ''disk full'') (Inr (cps ''user'')))),
        writes = [], stdout = []\<rparr>
       (cps ''src/a.ts'')
     = (\<lparr>disk = (\<lambda>_. Inr (cps ''userId''))(cps ''src/a.ts'' := Inr (cps ''user'')),
         write_error = (\<lambda>_. Some (Write_raises (cps ''disk full'') (Inr (cps ''user'')))),
         writes = [], stdout = [Error_processing (cps ''src/a.ts'') (cps ''disk full'')]\<rparr>, 0)
   \<and> process_files (\<lambda>_. False) (cps ''src'') [cps ''a.ts'']
       (\<lparr>disk = (\<lambda>_. Inl (cps ''denied'')), write_error = (\<lambda>_. None), writes = [],
         stdout = []\<rparr>, 0, 0)
     = (\<lparr>disk = (\<lambda>_. Inl (cps ''denied'')), write_error = (\<lambda>_. None), writes = [],
         stdout = [Error_processing (cps ''src/a.ts'') (cps ''denied'')]\<rparr>, 0, 0)"
proof -
  let ?w1 = "\<lparr>disk = (\<lambda>_. Inl (cps ''denied'')), write_error = (\<lambda>_. None), writes = [],
              stdout = []\<rparr>"
  let ?w2 = "\<lparr>disk = (\<lambda>_. Inr (cps ''userId'')),
              write_error = (\<lambda>_. Some (Open_raises (cps ''read-only''))),
              writes = [], stdout = []\<rparr>"
  let ?w3 = "\<lparr>disk = (\<lambda>_. Inr (cps ''userId'')),
              write_error = (\<lambda>_. Some (Write_raises (cps ''disk full'') (Inr (cps ''user'')))),
              writes = [], stdout = []\<rparr>"
  have e: "fix_content (\<lambda>_. False) (cps ''userId'') = (cps ''user_id'', 1)"
    by (simp add: fix_content_def table_defs scan_defs)
  have ne: "fst (fix_content (\<lambda>_. False) (cps ''userId'')) \<noteq> cps ''userId''"
    unfolding e by (simp add: cps_def)
  have ts: "is_ts_file (cps ''a.ts'')" by (simp add: is_ts_file_def endswith_def cps_def)
  have pj: "path_join (cps ''src'') (cps ''a.ts'') = cps ''src/a.ts''"
    by (simp add: path_join_def cps_def)
  have body: "fix_file_body (\<lambda>_. False) ?w1 (path_join (cps ''src'') (cps ''a.ts''))
                = Inl (cps ''denied'', ?w1)"
    by (simp add: fix_file_body_def)
  have 1: "fix_file (\<lambda>_. False) ?w1 (cps ''src/a.ts'')
             = (?w1\<lparr>stdout := stdout ?w1 @ [Error_processing (cps ''src/a.ts'') (cps ''denied'')]\<rparr>, 0)"
    using failure_isolated_per_file[where w="?w1" and file_path="cps ''src/a.ts''"
        and e="cps ''denied''" and U="\<lambda>_. False"]
    by simp
  have 2: "fix_file (\<lambda>_. False) ?w2 (cps ''src/a.ts'')
             = (?w2\<lparr>stdout := stdout ?w2
                  @ [Error_processing (cps ''src/a.ts'') (cps ''read-only'')]\<rparr>, 0)"
    using failure_isolated_per_file[where w="?w2" and file_path="cps ''src/a.ts''"
        and e="cps ''read-only''" and U="\<lambda>_. False" and content="cps ''userId''"] ne
    by simp
  have 3: "fix_file (\<lambda>_. False) ?w3 (cps ''src/a.ts'')
             = (?w3\<lparr>disk := (disk ?w3)(cps ''src/a.ts'' := Inr (cps ''user'')),
                    stdout := stdout ?w3
                      @ [Error_processing (cps ''src/a.ts'') (cps ''disk full'')]\<rparr>, 0)"
    using failure_isolated_per_file[where w="?w3" and file_path="cps ''src/a.ts''"
        and e="cps ''disk full''" and U="\<lambda>_. False" and content="cps ''userId''"
        and left="Inr (cps ''user'')"] ne
    by simp
  have 4: "process_files (\<lambda>_. False) (cps ''src'') [cps ''a.ts''] (?w1, 0, 0)
             = process_files (\<lambda>_. False) (cps ''src'') []
                 (?w1\<lparr>stdout := stdout ?w1
                    @ [Error_processing (path_join (cps ''src'') (cps ''a.ts'')) (cps ''denied'')]\<rparr>,
                  0, 0)"
    using failure_isolated_per_file[where w="?w1" and e="cps ''denied''" and U="\<lambda>_. False"
        and name="cps ''a.ts''" and root="cps ''src''" and files="[]" and total_changes=0
        and files_changed=0 and ?w1.0="?w1"] ts body
    by blast
  show ?thesis using 1 2 3 4 pj by simp
qed

text \<open>
  C9. The driver: the program's test of a file name holds exactly for the names that end
  in \<^verbatim>\<open>.ts\<close> or \<^verbatim>\<open>.tsx\<close>, and \<^verbatim>\<open>main\<close> passes to \<^verbatim>\<open>fix_file\<close> exactly the files of
  the walk of \<^verbatim>\<open>src\<close> with such a name, in the order of the walk; for each of them with
  a nonzero count it adds 1 to the files-changed counter, the count to the total-changes
  counter and prints the progress line, and for a zero count it leaves both counters as
  they were; the three summary lines follow.
\<close>

theorem driver_behaviour:
  "is_ts_file name = (suffix (cps ''.ts'') name \<or> suffix (cps ''.tsx'') name)
   \<and> main U os_walk w =
     (case fold (process_one U) (candidates (os_walk (cps ''src''))) (w, 0, 0) of
        (w', total_changes, files_changed) \<Rightarrow>
          w'\<lparr>stdout := stdout w' @
                [Completed, Files_changed files_changed, Total_changes total_changes]\<rparr>)"
  by (simp add: main_def walk_loop_fold is_ts_file_ts_name ts_name_def)

text \<open>
  C10, as stated: the change count is nonzero exactly when the rewritten text differs
  from the text read, and consequently a write to disk occurs exactly when \<^verbatim>\<open>fix_file\<close>
  returns a nonzero count. The second half fails where the write raises after
  \<^verbatim>\<open>open(file_path, 'w')\<close> has truncated the file: the file \<^verbatim>\<open>userId\<close> is left as
  \<^verbatim>\<open>user\<close>, and \<^verbatim>\<open>fix_file\<close> returns 0.
\<close>

theorem write_with_zero_count_counterexample:
  "disk \<lparr>disk = (\<lambda>_. Inr (cps ''userId'')),
         write_error = (\<lambda>_. Some (Write_raises (cps ''disk full'') (Inr (cps ''user'')))),
         writes = [], stdout = []\<rparr> (cps ''src/a.ts'') = Inr (cps ''userId'')
   \<and> disk (fst (fix_file (\<lambda>_. False)
         \<lparr>disk = (\<lambda>_. Inr (cps ''userId'')),
          write_error = (\<lambda>_. Some (Write_raises (cps ''disk full'') (Inr (cps ''user'')))),
          writes = [], stdout = []\<rparr> (cps ''src/a.ts''))) (cps ''src/a.ts'') = Inr (cps ''user'')
   \<and> snd (fix_file (\<lambda>_. False)
         \<lparr>disk = (\<lambda>_. Inr (cps ''userId'')),
          write_error = (\<lambda>_. Some (Write_raises (cps ''disk full'') (Inr (cps ''user'')))),
          writes = [], stdout = []\<rparr> (cps ''src/a.ts'')) = 0"
proof -
  have e: "fix_content (\<lambda>_. False) (cps ''userId'') = (cps ''user_id'', 1)"
    by (simp add: fix_content_def table_defs scan_defs)
  have ne: "cps ''user_id'' \<noteq> cps ''userId''" by (simp add: cps_def)
  show ?thesis using e ne by (simp add: fix_file_def fix_file_body_def)
qed

text \<open>
  C10, amended: the change count is nonzero exactly when the rewritten text differs from
  the text read; \<^verbatim>\<open>fix_file\<close> returns a nonzero count exactly when it completed a write,
  and, where writing the file does not raise, exactly when the file on disk changed.
\<close>

theorem count_nonzero_iff_changed:
  "(snd (fix_content U content) \<noteq> 0) = (fst (fix_content U content) \<noteq> content)
   \<and> (snd (fix_file U w file_path) \<noteq> 0)
       = (writes (fst (fix_file U w file_path)) \<noteq> writes w)
   \<and> (write_error w file_path = None \<longrightarrow>
        (snd (fix_file U w file_path) \<noteq> 0)
          = (disk (fst (fix_file U w file_path)) file_path \<noteq> disk w file_path))"
proof (intro conjI impI)
  show 1: "(snd (fix_content U content) \<noteq> 0) = (fst (fix_content U content) \<noteq> content)"
    for content
    using sub_all_changes_iff[OF all_grow, of U content] by (simp add: fix_content_spec)
  show "(snd (fix_file U w file_path) \<noteq> 0)
       = (writes (fst (fix_file U w file_path)) \<noteq> writes w)"
  proof (cases "disk w file_path")
    case (Inl e)
    then show ?thesis by (simp add: fix_file_def fix_file_body_def)
  next
    case (Inr original)
    obtain c n where f: "fix_content U original = (c, n)" by (cases "fix_content U original")
    have n: "(n \<noteq> 0) = (c \<noteq> original)" using 1[of original] f by simp
    show ?thesis using Inr f n
      by (auto simp add: fix_file_def fix_file_body_def
          split: option.splits write_failure.splits)
  qed
  assume ok: "write_error w file_path = None"
  show "(snd (fix_file U w file_path) \<noteq> 0)
          = (disk (fst (fix_file U w file_path)) file_path \<noteq> disk w file_path)"
  proof (cases "disk w file_path")
    case (Inl e)
    then show ?thesis by (simp add: fix_file_def fix_file_body_def)
  next
    case (Inr original)
    obtain c n where f: "fix_content U original = (c, n)" by (cases "fix_content U original")
    have n: "(n \<noteq> 0) = (c \<noteq> original)" using 1[of original] f by simp
    show ?thesis using Inr f n ok by (auto simp add: fix_file_def fix_file_body_def)
  qed
qed

theorem count_nonzero_iff_changed_witness:
  "write_error \<lparr>disk = (\<lambda>_. Inr (cps ''userId'')), write_error = (\<lambda>_. None), writes = [],
                 stdout = []\<rparr> (cps ''src/a.ts'') = None
   \<and> snd (fix_file (\<lambda>_. False)
         \<lparr>disk = (\<lambda>_. Inr (cps ''userId'')), write_error = (\<lambda>_. None), writes = [],
          stdout = []\<rparr> (cps ''src/a.ts'')) = 1
   \<and> disk (fst (fix_file (\<lambda>_. False)
         \<lparr>disk = (\<lambda>_. Inr (cps ''userId'')), write_error = (\<lambda>_. None), writes = [],
          stdout = []\<rparr> (cps ''src/a.ts''))) (cps ''src/a.ts'') \<noteq> Inr (cps ''userId'')"
proof -
  let ?w = "\<lparr>disk = (\<lambda>_. Inr (cps ''userId'')), write_error = (\<lambda>_. None), writes = [],
             stdout = []\<rparr>"
  have e: "fix_content (\<lambda>_. False) (cps ''userId'') = (cps ''user_id'', 1)"
    by (simp add: fix_content_def table_defs scan_defs)
  have ne: "cps ''user_id'' \<noteq> cps ''userId''" by (simp add: cps_def)
  have s: "snd (fix_file (\<lambda>_. False) ?w (cps ''src/a.ts'')) = 1"
    using e ne by (simp add: fix_file_def fix_file_body_def)
  have ok: "write_error ?w (cps ''src/a.ts'') = None" by simp
  have d: "disk ?w (cps ''src/a.ts'') = Inr (cps ''userId'')" by simp
  have "disk (fst (fix_file (\<lambda>_. False) ?w (cps ''src/a.ts''))) (cps ''src/a.ts'')
          \<noteq> disk ?w (cps ''src/a.ts'')"
    using count_nonzero_iff_changed[where U="\<lambda>_. False" and w="?w"
        and file_path="cps ''src/a.ts''"] ok s
    by simp
  then show ?thesis using s ok d by simp
qed

end
